theory Spec2Isabelle
  imports Main
begin

section \<open>Go library functions the server calls\<close>

text \<open>
  Go strings are byte sequences; they are modelled as \<open>string\<close> (a list of 8-bit
  characters).  The library functions below are the ones \<open>findBestMockFile\<close>,
  \<open>replacePathParams\<close> and \<open>mockHandler\<close> call, written out for Unix paths
  (separator \<open>/\<close>, no volume names).
\<close>

subsection \<open>Package strings\<close>

definition strings_HasPrefix :: "string \<Rightarrow> string \<Rightarrow> bool" where
  "strings_HasPrefix s pre = (take (length pre) s = pre)"

definition strings_TrimPrefix :: "string \<Rightarrow> string \<Rightarrow> string" where
  "strings_TrimPrefix s pre = (if strings_HasPrefix s pre then drop (length pre) s else s)"

definition strings_HasSuffix :: "string \<Rightarrow> string \<Rightarrow> bool" where
  "strings_HasSuffix s suf =
     (length suf \<le> length s \<and> drop (length s - length suf) s = suf)"

definition strings_TrimSuffix :: "string \<Rightarrow> string \<Rightarrow> string" where
  "strings_TrimSuffix s suf =
     (if strings_HasSuffix s suf then take (length s - length suf) s else s)"

text \<open>
  \<open>strings.Split(s, sep)\<close> for a one-byte separator (every call site passes \<open>"/"\<close>):
  the pieces between the separators; the empty string gives one empty piece.
\<close>

fun strings_Split :: "string \<Rightarrow> char \<Rightarrow> string list" where
  "strings_Split [] sep = [[]]"
| "strings_Split (c # cs) sep =
     (if c = sep then [] # strings_Split cs sep
      else (case strings_Split cs sep of
              [] \<Rightarrow> [[c]]
            | p # ps \<Rightarrow> (c # p) # ps))"

text \<open>\<open>strings.Join(elems, sep)\<close>.\<close>

fun strings_Join :: "string list \<Rightarrow> string \<Rightarrow> string" where
  "strings_Join [] sep = []"
| "strings_Join [x] sep = x"
| "strings_Join (x # y # ys) sep = x @ sep @ strings_Join (y # ys) sep"

subsection \<open>Package path/filepath (Unix)\<close>

text \<open>
  \<open>filepath.Clean\<close>: the path is read element by element; empty elements and \<open>.\<close> are
  dropped, \<open>..\<close> removes the element before it when there is one that is not itself
  \<open>..\<close>, is dropped at the root of a rooted path and is kept otherwise.  An empty
  result is \<open>.\<close>.
\<close>

definition cleanStep :: "bool \<Rightarrow> string list \<Rightarrow> string \<Rightarrow> string list" where
  "cleanStep rooted out e =
     (if e = [] \<or> e = ''.'' then out
      else if e = ''..'' then
        (if out \<noteq> [] \<and> last out \<noteq> ''..'' then butlast out
         else if rooted then out
         else out @ [''..''])
      else out @ [e])"

definition isRooted :: "string \<Rightarrow> bool" where
  "isRooted p = (case p of [] \<Rightarrow> False | c # _ \<Rightarrow> c = CHR ''/'')"

definition cleanElems :: "string \<Rightarrow> string list" where
  "cleanElems p = foldl (cleanStep (isRooted p)) [] (strings_Split p CHR ''/'')"

definition renderPath :: "bool \<Rightarrow> string list \<Rightarrow> string" where
  "renderPath rooted out =
     (if rooted then CHR ''/'' # strings_Join out ''/''
      else if out = [] then ''.''
      else strings_Join out ''/'')"

definition filepath_Clean :: "string \<Rightarrow> string" where
  "filepath_Clean p = renderPath (isRooted p) (cleanElems p)"

text \<open>
  \<open>filepath.Join(a, b)\<close>: empty arguments before the first non-empty one are skipped,
  the rest is joined with the separator and cleaned; all empty gives the empty string.
\<close>

definition filepath_Join :: "string \<Rightarrow> string \<Rightarrow> string" where
  "filepath_Join a b =
     (if a \<noteq> [] then filepath_Clean (a @ ''/'' @ b)
      else if b \<noteq> [] then filepath_Clean b
      else [])"

text \<open>
  \<open>filepath.Rel(basepath, targpath)\<close>.  Both paths are cleaned; equal paths give \<open>.\<close>;
  a base of \<open>.\<close> counts as empty; a rooted and an unrooted path cannot be related.
  \<open>relElems\<close> lists the elements the comparison loop steps through (an element ends
  at a separator or at the end of the string; the loop stops when the string is used
  up, so a final separator starts no further element).  After the common elements,
  a remaining base element \<open>..\<close> at the point of difference is an error, every other
  remaining base element becomes a \<open>..\<close> in front of what remains of the target.
  \<open>None\<close> is the error return.
\<close>

definition relElems :: "string \<Rightarrow> string list" where
  "relElems s =
     (if s = [] then []
      else if last s = CHR ''/'' then butlast (strings_Split s CHR ''/'')
      else strings_Split s CHR ''/'')"

fun dropCommon :: "string list \<Rightarrow> string list \<Rightarrow> string list \<times> string list" where
  "dropCommon (b # bs) (t # ts) = (if b = t then dropCommon bs ts else (b # bs, t # ts))"
| "dropCommon bs ts = (bs, ts)"

definition filepath_Rel :: "string \<Rightarrow> string \<Rightarrow> string option" where
  "filepath_Rel basepath targpath =
     (let base = filepath_Clean basepath;
          targ = filepath_Clean targpath
      in if targ = base then Some ''.''
         else
           let base = (if base = ''.'' then [] else base)
           in if isRooted base \<noteq> isRooted targ then None
              else
                (case dropCommon (relElems base) (relElems targ) of
                   (b, t) \<Rightarrow>
                     if b \<noteq> [] \<and> t \<noteq> [] \<and> hd b = ''..'' then None
                     else if b \<noteq> [] then
                       Some (strings_Join (replicate (length b) ''..'' @ t) ''/'')
                     else Some (strings_Join t ''/'')))"

section \<open>The path matcher: findBestMockFile\<close>

subsection \<open>The mock directory as filepath.WalkDir sees it\<close>

text \<open>
  A node of the mock directory: something that is not a directory (\<open>d.IsDir()\<close> is
  false), a directory with the entries \<open>os.ReadDir\<close> returns (name and node, in
  the order returned, which is by file name), or a directory whose \<open>ReadDir\<close> fails
  (with the entries it could read before the error).
\<close>

datatype fsnode =
    FileNode
  | DirNode "(string \<times> fsnode) list"
  | UnreadableDir "(string \<times> fsnode) list"

datatype walkErr = LstatError | ReadDirError

text \<open>
  The callback type \<open>fs.WalkDirFunc\<close>: the state it closes over is passed in and
  returned; its arguments are the path, \<open>d.IsDir()\<close> and the error.  The callbacks
  of this program return \<open>nil\<close> or the error they were given, never
  \<open>SkipDir\<close> or \<open>SkipAll\<close>, so the result is an optional error.
\<close>

type_synonym 's walkDirFunc = "'s \<Rightarrow> string \<Rightarrow> bool \<Rightarrow> walkErr option \<Rightarrow> 's \<times> walkErr option"

text \<open>
  \<open>filepath.WalkDir\<close>: the callback is called on the node; a non-nil result stops the
  whole walk and is returned.  A directory is read after its own call; when the read
  fails the callback is called a second time with the error, and only a nil result lets
  the walk go on with the entries that were read.  The entries are walked in order
  under the path \<open>filepath.Join(path, name)\<close>.
\<close>

fun walkDir :: "'s walkDirFunc \<Rightarrow> string \<Rightarrow> fsnode \<Rightarrow> 's \<Rightarrow> 's \<times> walkErr option"
  and walkEntries :: "'s walkDirFunc \<Rightarrow> string \<Rightarrow> (string \<times> fsnode) list \<Rightarrow> 's \<Rightarrow> 's \<times> walkErr option"
where
  "walkDir fn path FileNode st = fn st path False None"
| "walkDir fn path (DirNode dirs) st =
     (case fn st path True None of
        (st1, Some e) \<Rightarrow> (st1, Some e)
      | (st1, None) \<Rightarrow> walkEntries fn path dirs st1)"
| "walkDir fn path (UnreadableDir dirs) st =
     (case fn st path True None of
        (st1, Some e) \<Rightarrow> (st1, Some e)
      | (st1, None) \<Rightarrow>
          (case fn st1 path True (Some ReadDirError) of
             (st2, Some e) \<Rightarrow> (st2, Some e)
           | (st2, None) \<Rightarrow> walkEntries fn path dirs st2))"
| "walkEntries fn path [] st = (st, None)"
| "walkEntries fn path (nd # rest) st =
     (case walkDir fn (filepath_Join path (fst nd)) (snd nd) st of
        (st1, Some e) \<Rightarrow> (st1, Some e)
      | (st1, None) \<Rightarrow> walkEntries fn path rest st1)"

text \<open>
  The root: \<open>None\<close> when \<open>os.Lstat(root)\<close> fails; the callback is then called once
  with the root path, a nil entry and the error (the flag passed for \<open>d.IsDir()\<close> is
  not read by a callback that tests the error first).
\<close>

definition filepath_WalkDir :: "string \<Rightarrow> fsnode option \<Rightarrow> 's walkDirFunc \<Rightarrow> 's \<Rightarrow> 's \<times> walkErr option" where
  "filepath_WalkDir root tree fn st =
     (case tree of
        None \<Rightarrow> fn st root False (Some LstatError)
      | Some d \<Rightarrow> walkDir fn root d st)"

subsection \<open>The callback of findBestMockFile\<close>

text \<open>The variables the callback closes over and assigns (source lines 243-245).\<close>

record best =
  bestMatch :: string
  bestParams :: "string list"
  bestScore :: int

text \<open>
  Lines 256-262: the route template of a path.  \<open>filepath.Rel\<close>'s error is
  discarded (\<open>rel, _ =\<close>), which leaves the empty string it returns with an error.
\<close>

definition mockPartsOf :: "string \<Rightarrow> string \<Rightarrow> string list" where
  "mockPartsOf baseDir path =
     (let rel = strings_TrimSuffix path ''.json'';
          rel = (if strings_HasSuffix rel ''/index'' then strings_TrimSuffix rel ''/index'' else rel);
          rel = (case filepath_Rel baseDir rel of Some r \<Rightarrow> r | None \<Rightarrow> [])
      in strings_Split rel CHR ''/'')"

text \<open>
  Lines 268-284: the loop over the positions of the template, started with
  \<open>i = 0\<close>, no parameters and \<open>underscoreCount = 0\<close>.  It returns \<open>match\<close>,
  \<open>params\<close> and \<open>underscoreCount\<close> as they are after the loop; a \<open>break\<close> leaves the
  loop with \<open>match = false\<close>.  The caller has checked that both lists have the same
  length (line 264), so \<open>requestParts ! i\<close> is in range.
\<close>

function matchLoop :: "string list \<Rightarrow> string list \<Rightarrow> nat \<Rightarrow> string list \<Rightarrow> nat \<Rightarrow> bool \<times> string list \<times> nat" where
  "matchLoop mockParts requestParts i params underscoreCount =
     (if i < length mockParts then
        (if mockParts ! i = ''_'' then
           (if requestParts ! i = [] then (False, params, underscoreCount)
            else matchLoop mockParts requestParts (i + 1) (params @ [requestParts ! i]) (underscoreCount + 1))
         else if mockParts ! i \<noteq> requestParts ! i then (False, params, underscoreCount)
         else matchLoop mockParts requestParts (i + 1) params underscoreCount)
      else (True, params, underscoreCount))"
  by pat_completeness auto
termination
  by (relation "measure (\<lambda>(m, r, i, p, u). length m - i)") auto

declare matchLoop.simps [simp del]

text \<open>
  Lines 264-284 as one step: \<open>None\<close> when the callback rejects the template (the
  lengths differ, or the loop ends with \<open>match = false\<close>), otherwise the captured
  parameters and the number of wildcards counted.
\<close>

definition matchParts :: "string list \<Rightarrow> string list \<Rightarrow> (string list \<times> nat) option" where
  "matchParts mockParts requestParts =
     (if length mockParts \<noteq> length requestParts then None
      else (case matchLoop mockParts requestParts 0 [] 0 of
              (match, params, underscoreCount) \<Rightarrow>
                if match then Some (params, underscoreCount) else None))"

text \<open>Lines 247-296: the callback.\<close>

definition walkFn :: "string \<Rightarrow> string list \<Rightarrow> best walkDirFunc" where
  "walkFn baseDir requestParts st path isDir err =
     (if err \<noteq> None \<or> isDir then (st, err)
      else if \<not> strings_HasSuffix path ''.json'' then (st, None)
      else
        (case matchParts (mockPartsOf baseDir path) requestParts of
           None \<Rightarrow> (st, None)
         | Some (params, underscoreCount) \<Rightarrow>
             let score = int (length requestParts) - int underscoreCount
             in if score > bestScore st
                then (st\<lparr>bestScore := score, bestMatch := path, bestParams := params\<rparr>, None)
                else (st, None)))"

text \<open>
  Lines 240-303.  The third component is what \<open>log.Printf("Walk error: ...")\<close>
  writes: the error \<open>WalkDir\<close> returned, if any.
\<close>

definition findBestMockFile :: "string \<Rightarrow> string \<Rightarrow> fsnode option \<Rightarrow> string \<times> string list \<times> walkErr option" where
  "findBestMockFile baseDir requestPath tree =
     (let requestParts = strings_Split requestPath CHR ''/'';
          init = \<lparr>bestMatch = [], bestParams = [], bestScore = - 1\<rparr>
      in (case filepath_WalkDir baseDir tree (walkFn baseDir requestParts) init of
            (st, err) \<Rightarrow> (bestMatch st, bestParams st, err)))"

subsection \<open>Vocabulary of the matcher's properties\<close>

text \<open>
  A template segment and a request segment agree: the wildcard \<open>_\<close> takes any
  non-empty segment, a literal takes the equal segment only.
\<close>

definition segmentAgrees :: "string \<Rightarrow> string \<Rightarrow> bool" where
  "segmentAgrees t s = (if t = ''_'' then s \<noteq> [] else t = s)"

text \<open>The request segments standing at the wildcard positions, in template order.\<close>

definition capturedAt :: "string list \<Rightarrow> string list \<Rightarrow> string list" where
  "capturedAt template request = map snd (filter (\<lambda>(t, s). t = ''_'') (zip template request))"

definition wildcardCount :: "string list \<Rightarrow> nat" where
  "wildcardCount template = length (filter (\<lambda>t. t = ''_'') template)"


text \<open>A walked path is a candidate for a request: a \<open>.json\<close> file whose template matches.\<close>

definition matchesRequest :: "string \<Rightarrow> string list \<Rightarrow> string \<Rightarrow> bool" where
  "matchesRequest baseDir requestParts path =
     (strings_HasSuffix path ''.json'' \<and> matchParts (mockPartsOf baseDir path) requestParts \<noteq> None)"

text \<open>
  The paths of the non-directories a walk calls the callback on, in the order of the
  calls, up to the first traversal error, and that error.  Nothing after an unreadable
  directory is listed, neither its own entries nor the entries that follow it in a
  directory above.
\<close>

fun reached :: "string \<Rightarrow> fsnode \<Rightarrow> string list \<times> walkErr option"
  and reachedEntries :: "string \<Rightarrow> (string \<times> fsnode) list \<Rightarrow> string list \<times> walkErr option"
where
  "reached path FileNode = ([path], None)"
| "reached path (DirNode dirs) = reachedEntries path dirs"
| "reached path (UnreadableDir dirs) = ([], Some ReadDirError)"
| "reachedEntries path [] = ([], None)"
| "reachedEntries path (nd # rest) =
     (case reached (filepath_Join path (fst nd)) (snd nd) of
        (fs, Some e) \<Rightarrow> (fs, Some e)
      | (fs, None) \<Rightarrow> (case reachedEntries path rest of (gs, err) \<Rightarrow> (fs @ gs, err)))"

definition reachedFrom :: "string \<Rightarrow> fsnode option \<Rightarrow> string list \<times> walkErr option" where
  "reachedFrom root tree =
     (case tree of None \<Rightarrow> ([], Some LstatError) | Some d \<Rightarrow> reached root d)"

text \<open>The callback's effect on the closed-over variables when called on a non-directory.\<close>

definition visitFile :: "string \<Rightarrow> string list \<Rightarrow> best \<Rightarrow> string \<Rightarrow> best" where
  "visitFile baseDir requestParts st path = fst (walkFn baseDir requestParts st path False None)"


subsection \<open>Vocabulary of the route template's properties\<close>

text \<open>
  A name as a directory entry has it: not empty, without a separator, and neither
  \<open>.\<close> nor \<open>..\<close>.
\<close>

definition properName :: "string \<Rightarrow> bool" where
  "properName n = (n \<noteq> [] \<and> CHR ''/'' \<notin> set n \<and> n \<noteq> ''.'' \<and> n \<noteq> ''..'')"

text \<open>
  The element lists \<open>filepath.Clean\<close> produces: no empty element, no \<open>.\<close>, no
  separator inside an element, \<open>..\<close> only at the front and never in a rooted path.
\<close>

definition cleanList :: "bool \<Rightarrow> string list \<Rightarrow> bool" where
  "cleanList rooted xs =
     ((\<forall>x \<in> set xs. x \<noteq> [] \<and> x \<noteq> ''.'' \<and> CHR ''/'' \<notin> set x) \<and>
      ''..'' \<notin> set (dropWhile (\<lambda>x. x = ''..'') xs) \<and>
      (rooted \<longrightarrow> ''..'' \<notin> set xs))"

text \<open>
  The route template as the spec derives it from a file's path relative to the mock
  root: strip the \<open>.json\<close> suffix, split at \<open>/\<close>, and drop the last segment when it
  is \<open>index\<close>.
\<close>

definition specTemplate :: "string \<Rightarrow> string list" where
  "specTemplate relPath =
     (let segs = strings_Split (strings_TrimSuffix relPath ''.json'') CHR ''/''
      in if last segs = ''index'' then butlast segs else segs)"

section \<open>The template expander: replacePathParams\<close>

subsection \<open>The pattern and the library functions\<close>

text \<open>\<open>\d\<close> of Go's regexp syntax: an ASCII digit.\<close>

definition isDigit :: "char \<Rightarrow> bool" where
  "isDigit c = (c \<in> set ''0123456789'')"

text \<open>
  The pattern \<open>\{path\.(\d+)\}\<close> (line 228) matched at the start of a string: the
  text of group 1 and the text after the match, or \<open>None\<close>.  The group takes the
  whole run of digits: the byte after it must be \<open>}\<close>, which is no digit, so no
  shorter run can match.
\<close>

definition matchHere :: "string \<Rightarrow> (string \<times> string) option" where
  "matchHere s =
     (if strings_HasPrefix s ''{path.'' then
        (let t = drop 6 s;
             ds = takeWhile isDigit t;
             r = dropWhile isDigit t
         in if ds \<noteq> [] \<and> strings_HasPrefix r ''}'' then Some (ds, drop 1 r) else None)
      else None)"

text \<open>
  The leftmost match in a string: the text before it, group 1 and the text after it.
\<close>

fun findMatch :: "string \<Rightarrow> (string \<times> string \<times> string) option" where
  "findMatch [] = None"
| "findMatch (c # cs) =
     (case matchHere (c # cs) of
        Some (ds, rest) \<Rightarrow> Some ([], ds, rest)
      | None \<Rightarrow>
          (case findMatch cs of
             None \<Rightarrow> None
           | Some (pre, ds, rest) \<Rightarrow> Some (c # pre, ds, rest)))"

text \<open>
  \<open>re.FindStringSubmatch(s)\<close>: the leftmost match and its group, or nil (the empty
  list) when nothing matches.
\<close>

definition regexp_FindStringSubmatch :: "string \<Rightarrow> string list" where
  "regexp_FindStringSubmatch s =
     (case findMatch s of
        None \<Rightarrow> []
      | Some (pre, ds, rest) \<Rightarrow> [''{path.'' @ ds @ ''}'', ds])"

lemma matchHere_shape:
  "matchHere s = Some (ds, rest) \<Longrightarrow> s = ''{path.'' @ ds @ ''}'' @ rest"
proof -
  assume m: "matchHere s = Some (ds, rest)"
  let ?t = "drop 6 s"
  have len6: "length ''{path.'' = 6" and len1: "length ''}'' = 1" by simp_all
  from m have hp: "strings_HasPrefix s ''{path.''"
    unfolding matchHere_def by (simp split: if_splits)
  then have pre: "take 6 s = ''{path.''"
    unfolding strings_HasPrefix_def by (simp only: len6)
  from m hp have body: "takeWhile isDigit ?t \<noteq> [] \<and> strings_HasPrefix (dropWhile isDigit ?t) ''}'' \<and>
      ds = takeWhile isDigit ?t \<and> rest = drop 1 (dropWhile isDigit ?t)"
    unfolding matchHere_def Let_def by (simp split: if_splits)
  then have r: "take 1 (dropWhile isDigit ?t) = ''}''"
    unfolding strings_HasPrefix_def by (simp only: len1)
  have "s = take 6 s @ ?t" by simp
  also have "?t = takeWhile isDigit ?t @ dropWhile isDigit ?t" by simp
  also have "dropWhile isDigit ?t = take 1 (dropWhile isDigit ?t) @ drop 1 (dropWhile isDigit ?t)"
    by simp
  finally have "s = take 6 s @ takeWhile isDigit ?t @ take 1 (dropWhile isDigit ?t) @ drop 1 (dropWhile isDigit ?t)" .
  then show ?thesis using body by (simp only: pre r)
qed

lemma findMatch_shape:
  "findMatch s = Some (pre, ds, rest) \<Longrightarrow> s = pre @ ''{path.'' @ ds @ ''}'' @ rest"
proof (induction s arbitrary: pre)
  case Nil
  then show ?case by simp
next
  case (Cons c cs)
  show ?case
  proof (cases "matchHere (c # cs)")
    case (Some m)
    then have "matchHere (c # cs) = Some (ds, rest)" "pre = []"
      using Cons.prems by (auto split: prod.splits)
    then show ?thesis using matchHere_shape by simp
  next
    case None
    then obtain pre' where "findMatch cs = Some (pre', ds, rest)" "pre = c # pre'"
      using Cons.prems by (auto split: option.splits)
    then show ?thesis using Cons.IH by simp
  qed
qed

text \<open>
  \<open>re.ReplaceAllStringFunc(src, repl)\<close>: the text before the leftmost match is copied,
  the match is replaced by what \<open>repl\<close> returns for it, and the search goes on after
  the match (a match of this pattern is never empty).
\<close>

function regexp_ReplaceAllStringFunc :: "string \<Rightarrow> (string \<Rightarrow> string) \<Rightarrow> string" where
  "regexp_ReplaceAllStringFunc src repl =
     (case findMatch src of
        None \<Rightarrow> src
      | Some (pre, ds, rest) \<Rightarrow>
          pre @ repl (''{path.'' @ ds @ ''}'') @ regexp_ReplaceAllStringFunc rest repl)"
  by pat_completeness auto
termination
proof (relation "measure (\<lambda>(src, repl). length src)")
  show "wf (measure (\<lambda>(src, repl). length src))" by simp
next
  fix src :: string and repl :: "string \<Rightarrow> string" and m pre y ds rest
  assume "findMatch src = Some m" "(pre, y) = m" "(ds, rest) = y"
  then have "findMatch src = Some (pre, ds, rest)" by simp
  then have "src = pre @ ''{path.'' @ ds @ ''}'' @ rest" by (rule findMatch_shape)
  then have "length rest < length src" by simp
  then show "((rest, repl), (src, repl)) \<in> measure (\<lambda>(src, repl). length src)" by simp
qed

declare regexp_ReplaceAllStringFunc.simps [simp del]

text \<open>
  \<open>strconv.Atoi\<close> with a 64-bit \<open>int\<close>: an optional sign, then one or more decimal
  digits; \<open>None\<close> is a syntax or range error.
\<close>

definition digitsVal :: "string \<Rightarrow> nat" where
  "digitsVal ds = foldl (\<lambda>n c. 10 * n + (of_char c - 48)) 0 ds"

definition strconv_Atoi :: "string \<Rightarrow> int option" where
  "strconv_Atoi s =
     (case (case s of
              [] \<Rightarrow> (False, [])
            | c # r \<Rightarrow> if c = CHR ''-'' then (True, r)
                       else if c = CHR ''+'' then (False, r)
                       else (False, s)) of
        (neg, ds) \<Rightarrow>
          if ds = [] \<or> \<not> list_all isDigit ds then None
          else if neg then (if int (digitsVal ds) \<le> 2 ^ 63 then Some (- int (digitsVal ds)) else None)
          else (if int (digitsVal ds) < 2 ^ 63 then Some (int (digitsVal ds)) else None))"

subsection \<open>replacePathParams\<close>

text \<open>
  Lines 229-236, the function passed to \<open>ReplaceAllStringFunc\<close>.  The global
  \<open>currentPathParams\<close> it reads is an argument.  \<open>FindStringSubmatch(match)[1]\<close> is
  in range because \<open>match\<close> is a match of the same pattern
  (\<open>FindStringSubmatch_token\<close> below); \<open>idx\<close> is not negative because the group
  holds digits only.
\<close>

definition replaceFn :: "string list \<Rightarrow> string \<Rightarrow> string" where
  "replaceFn currentPathParams match =
     (let idxStr = regexp_FindStringSubmatch match ! 1
      in if idxStr \<noteq> [] then
           (case strconv_Atoi idxStr of
              Some idx \<Rightarrow>
                if idx < int (length currentPathParams) then currentPathParams ! nat idx
                else match
            | None \<Rightarrow> match)
         else match)"

text \<open>Lines 227-237.\<close>

definition replacePathParams :: "string list \<Rightarrow> string \<Rightarrow> string" where
  "replacePathParams currentPathParams s =
     regexp_ReplaceAllStringFunc s (replaceFn currentPathParams)"

text \<open>
  A text without a token: no part of it has the form \<open>{path.N}\<close> with \<open>N\<close> one or
  more decimal digits.
\<close>

definition tokenFree :: "string \<Rightarrow> bool" where
  "tokenFree a =
     (\<nexists>u ds v. ds \<noteq> [] \<and> list_all isDigit ds \<and> a = u @ ''{path.'' @ ds @ ''}'' @ v)"

section \<open>The response synthesiser: mockHandler\<close>

subsection \<open>Requests, descriptors, the environment and the calls on the response\<close>

text \<open>
  The struct \<open>MockResponse\<close> (lines 35-41).  \<open>Status\<close> and \<open>Delay\<close> are Go
  \<open>int\<close>s; \<open>Headers\<close> is a Go map, given as the key-value pairs in the order the
  \<open>range\<close> statement of line 197 visits them; \<open>Body\<close> holds the raw bytes of the
  \<open>body\<close> member (empty when the member is absent).
\<close>

record MockResponse =
  Method :: "string list"
  Status :: int
  Delay :: int
  Headers :: "(string \<times> string) list"
  Body :: string

text \<open>What the handler reads of the request: \<open>r.URL.Path\<close> and \<open>r.Method\<close>.\<close>

record request =
  URLPath :: string
  HTTPMethod :: string

text \<open>
  What the handler reads of its environment: the variable \<open>configDir\<close>; the mock
  directory as the walk sees it; \<open>os.Open\<close> followed by \<open>io.ReadAll\<close> (\<open>None\<close> when
  \<open>Open\<close> fails, otherwise the bytes \<open>ReadAll\<close> returned and whether it returned
  them with an error); and \<open>json.Unmarshal\<close> into a \<open>MockResponse\<close> (\<open>None\<close> when it
  returns an error).  The two library calls are parameters of the model.
\<close>

record env =
  configDir :: string
  mockTree :: "fsnode option"
  osOpen :: "string \<Rightarrow> (string \<times> bool) option"
  jsonUnmarshal :: "string \<Rightarrow> MockResponse option"

text \<open>
  The calls the handler makes on the \<open>http.ResponseWriter\<close> and on \<open>time.Sleep\<close>, in
  order: \<open>w.Header().Set(k, v)\<close>, \<open>w.WriteHeader(status)\<close>, \<open>w.Write(bytes)\<close>,
  \<open>json.NewEncoder(w).Encode(body)\<close> for a map given by its entries, and
  \<open>time.Sleep(d)\<close> with \<open>d\<close> in nanoseconds.
\<close>

datatype event =
    HeaderSet string string
  | WriteHeader int
  | WriteBytes string
  | EncodeJSON "(string \<times> string) list"
  | Sleep int

text \<open>
  What the handler leaves behind: the calls above, the global \<open>currentPathParams\<close>, and
  the walk error that \<open>findBestMockFile\<close> logged.
\<close>

record outcome =
  response :: "event list"
  pathParams :: "string list"
  logged :: "walkErr option"

text \<open>Multiplication of two \<open>int64\<close> values wraps around.\<close>

definition wrap64 :: "int \<Rightarrow> int" where
  "wrap64 x = (x + 2 ^ 63) mod 2 ^ 64 - 2 ^ 63"

subsection \<open>respondJSON and mockHandler\<close>

text \<open>Lines 305-309.\<close>

definition respondJSON :: "int \<Rightarrow> (string \<times> string) list \<Rightarrow> event list" where
  "respondJSON status body =
     [HeaderSet ''Content-Type'' ''application/json; charset=utf-8'',
      WriteHeader status,
      EncodeJSON body]"

text \<open>Lines 136-138.\<close>

definition corsHeaders :: "event list" where
  "corsHeaders =
     [HeaderSet ''Access-Control-Allow-Origin'' ''*'',
      HeaderSet ''Access-Control-Allow-Methods'' ''GET,POST,PUT,DELETE,OPTIONS'',
      HeaderSet ''Access-Control-Allow-Headers'' ''*'']"

text \<open>
  Lines 173-223: the handler once the file has been parsed as a descriptor.  The loop
  of lines 176-181 sets \<open>allowed\<close> exactly when the request method is in the list.
\<close>

definition serveMock :: "request \<Rightarrow> string list \<Rightarrow> MockResponse \<Rightarrow> event list" where
  "serveMock r currentPathParams mock =
     (if Method mock \<noteq> [] \<and> HTTPMethod r \<notin> set (Method mock) then
        respondJSON 405
          [(''error'', ''Method Not Allowed''),
           (''allow'', strings_Join (Method mock) '', '')]
      else
        (if Delay mock > 0 then [Sleep (wrap64 (Delay mock * 1000000))] else []) @
        map (\<lambda>(k, v). HeaderSet k (replacePathParams currentPathParams v)) (Headers mock) @
        (let status = (if Status mock = 0 then 200 else Status mock)
         in if Body mock = [] \<or> Body mock = ''null'' then
              [WriteHeader (if status = 200 then 204 else status)]
            else
              [HeaderSet ''Content-Type'' ''application/json; charset=utf-8'',
               WriteHeader status,
               WriteBytes (replacePathParams currentPathParams (Body mock))]))"

text \<open>
  Lines 128-224.  The third argument is the global \<open>currentPathParams\<close> before the
  request; line 147 assigns it before the 404 check.
\<close>

definition mockHandler :: "env \<Rightarrow> request \<Rightarrow> string list \<Rightarrow> outcome" where
  "mockHandler e r currentPathParams =
     (if URLPath r = ''/'' then
        \<lparr>response = [HeaderSet ''Content-Type'' ''text/plain; charset=utf-8'',
                     WriteBytes ''apimock server is running!''],
         pathParams = currentPathParams, logged = None\<rparr>
      else if HTTPMethod r = ''OPTIONS'' then
        \<lparr>response = corsHeaders @ [WriteHeader 200],
         pathParams = currentPathParams, logged = None\<rparr>
      else
        (case findBestMockFile (configDir e) (strings_TrimPrefix (URLPath r) ''/'') (mockTree e) of
           (filePath, params, err) \<Rightarrow>
             \<lparr>response = corsHeaders @
                (if filePath = [] then respondJSON 404 [(''error'', ''Not Found'')]
                 else
                   (case osOpen e filePath of
                      None \<Rightarrow> respondJSON 500 [(''error'', ''Server Error'')]
                    | Some (data, readErr) \<Rightarrow>
                        (case jsonUnmarshal e data of
                           None \<Rightarrow>
                             [HeaderSet ''Content-Type'' ''application/json'',
                              WriteHeader 200,
                              WriteBytes data]
                         | Some mock \<Rightarrow> serveMock r params mock))),
              pathParams = params, logged = err\<rparr>))"

subsection \<open>Vocabulary of the handler's properties\<close>

text \<open>
  What a sequence of calls holds: the status codes passed to \<open>WriteHeader\<close>, the byte
  strings passed to \<open>Write\<close>, the bodies passed to the JSON encoder, the durations
  slept, and the headers set, each in order.
\<close>

definition statusCalls :: "event list \<Rightarrow> int list" where
  "statusCalls tr = concat (map (\<lambda>ev. case ev of WriteHeader c \<Rightarrow> [c] | _ \<Rightarrow> []) tr)"

definition bodyWrites :: "event list \<Rightarrow> string list" where
  "bodyWrites tr = concat (map (\<lambda>ev. case ev of WriteBytes b \<Rightarrow> [b] | _ \<Rightarrow> []) tr)"

definition encodedBodies :: "event list \<Rightarrow> (string \<times> string) list list" where
  "encodedBodies tr = concat (map (\<lambda>ev. case ev of EncodeJSON b \<Rightarrow> [b] | _ \<Rightarrow> []) tr)"

definition sleeps :: "event list \<Rightarrow> int list" where
  "sleeps tr = concat (map (\<lambda>ev. case ev of Sleep d \<Rightarrow> [d] | _ \<Rightarrow> []) tr)"

definition headerSets :: "event list \<Rightarrow> (string \<times> string) list" where
  "headerSets tr = concat (map (\<lambda>ev. case ev of HeaderSet k v \<Rightarrow> [(k, v)] | _ \<Rightarrow> []) tr)"

section \<open>Properties\<close>

subsection \<open>The matching loop\<close>

lemma matchLoop_all_agree:
  "length m = length r \<Longrightarrow> i \<le> length m \<Longrightarrow>
   (\<forall>j. i \<le> j \<and> j < length m \<longrightarrow> segmentAgrees (m ! j) (r ! j)) \<Longrightarrow>
   matchLoop m r i ps u =
     (True, ps @ capturedAt (drop i m) (drop i r), u + wildcardCount (drop i m))"
proof (induction m r i ps u rule: matchLoop.induct)
  case (1 m r i ps u)
  show ?case
  proof (cases "i < length m")
    case False
    with "1.prems" show ?thesis
      by (simp add: matchLoop.simps capturedAt_def wildcardCount_def)
  next
    case True
    then have ir: "i < length r" using "1.prems" by simp
    have dm: "drop i m = m ! i # drop (Suc i) m"
      using True by (simp add: Cons_nth_drop_Suc)
    have dr: "drop i r = r ! i # drop (Suc i) r"
      using ir by (simp add: Cons_nth_drop_Suc)
    have here: "segmentAgrees (m ! i) (r ! i)" using "1.prems" True by simp
    have later: "\<forall>j. i + 1 \<le> j \<and> j < length m \<longrightarrow> segmentAgrees (m ! j) (r ! j)"
      using "1.prems" by simp
    show ?thesis
    proof (cases "m ! i = ''_''")
      case wild: True
      then have ne: "r ! i \<noteq> []" using here by (simp add: segmentAgrees_def)
      have "matchLoop m r i ps u = matchLoop m r (i + 1) (ps @ [r ! i]) (u + 1)"
        using True wild ne by (subst matchLoop.simps) simp
      also have "\<dots> = (True, (ps @ [r ! i]) @ capturedAt (drop (i + 1) m) (drop (i + 1) r),
                        (u + 1) + wildcardCount (drop (i + 1) m))"
        using "1.IH"(1)[OF True wild ne] "1.prems" True later by simp
      finally show ?thesis
        using wild by (simp add: dm dr capturedAt_def wildcardCount_def)
    next
      case lit: False
      then have eq: "m ! i = r ! i" using here by (simp add: segmentAgrees_def)
      have "matchLoop m r i ps u = matchLoop m r (i + 1) ps u"
        using True lit eq by (subst matchLoop.simps) simp
      also have "\<dots> = (True, ps @ capturedAt (drop (i + 1) m) (drop (i + 1) r),
                        u + wildcardCount (drop (i + 1) m))"
        using "1.IH"(2)[OF True lit] eq "1.prems" True later by simp
      finally show ?thesis
        using lit by (simp add: dm dr capturedAt_def wildcardCount_def)
    qed
  qed
qed

lemma matchLoop_disagree:
  "i \<le> j \<Longrightarrow> j < length m \<Longrightarrow> \<not> segmentAgrees (m ! j) (r ! j) \<Longrightarrow>
   fst (matchLoop m r i ps u) = False"
proof (induction m r i ps u rule: matchLoop.induct)
  case (1 m r i ps u)
  have il: "i < length m" using "1.prems" by simp
  show ?case
  proof (cases "m ! i = ''_''")
    case wild: True
    show ?thesis
    proof (cases "r ! i = []")
      case True
      then show ?thesis using il wild by (subst matchLoop.simps) simp
    next
      case ne: False
      then have "i \<noteq> j" using "1.prems" wild by (auto simp: segmentAgrees_def)
      then have "i + 1 \<le> j" using "1.prems" by simp
      then have "fst (matchLoop m r (i + 1) (ps @ [r ! i]) (u + 1)) = False"
        using "1.IH"(1)[OF il wild ne] "1.prems" by simp
      then show ?thesis using il wild ne by (subst matchLoop.simps) simp
    qed
  next
    case lit: False
    show ?thesis
    proof (cases "m ! i = r ! i")
      case False
      then show ?thesis using il lit by (subst matchLoop.simps) simp
    next
      case eq: True
      then have "i \<noteq> j" using "1.prems" lit by (auto simp: segmentAgrees_def)
      then have "i + 1 \<le> j" using "1.prems" by simp
      then have "fst (matchLoop m r (i + 1) ps u) = False"
        using "1.IH"(2)[OF il lit] eq "1.prems" by simp
      then show ?thesis using il lit eq by (subst matchLoop.simps) simp
    qed
  qed
qed

lemma matchParts_eq:
  "matchParts m r =
     (if length m = length r \<and> (\<forall>j < length m. segmentAgrees (m ! j) (r ! j))
      then Some (capturedAt m r, wildcardCount m)
      else None)"
proof (cases "length m = length r")
  case False
  then show ?thesis by (simp add: matchParts_def)
next
  case len: True
  show ?thesis
  proof (cases "\<forall>j < length m. segmentAgrees (m ! j) (r ! j)")
    case True
    then show ?thesis
      using len matchLoop_all_agree[of m r 0 "[]" 0] by (simp add: matchParts_def)
  next
    case False
    then obtain j where "j < length m" "\<not> segmentAgrees (m ! j) (r ! j)" by blast
    then have "fst (matchLoop m r 0 [] 0) = False"
      using matchLoop_disagree[of 0 j m r "[]" 0] by simp
    then show ?thesis
      using len False by (auto simp: matchParts_def split: prod.splits)
  qed
qed

text \<open>
  Claim C2.  A route template matches a request path exactly when both have the same
  number of segments and at every position a wildcard stands against a non-empty
  request segment and a literal against the equal request segment; the captured
  parameters are the request segments at the wildcard positions, in template order.
  A template with a wildcard against an empty request segment is rejected.
\<close>

theorem matchParts_iff:
  "(matchParts mockParts requestParts = Some (params, n) \<longleftrightarrow>
      length mockParts = length requestParts \<and>
      (\<forall>i < length mockParts.
         if mockParts ! i = ''_'' then requestParts ! i \<noteq> []
         else mockParts ! i = requestParts ! i) \<and>
      params = map snd (filter (\<lambda>(t, s). t = ''_'') (zip mockParts requestParts)) \<and>
      n = length (filter (\<lambda>t. t = ''_'') mockParts)) \<and>
   ((\<exists>i < length mockParts. mockParts ! i = ''_'' \<and> requestParts ! i = []) \<longrightarrow>
      matchParts mockParts requestParts = None)"
proof -
  have agree: "segmentAgrees t s = (if t = ''_'' then s \<noteq> [] else t = s)" for t s
    by (simp add: segmentAgrees_def)
  have first: "matchParts mockParts requestParts = Some (params, n) \<longleftrightarrow>
      length mockParts = length requestParts \<and>
      (\<forall>i < length mockParts.
         if mockParts ! i = ''_'' then requestParts ! i \<noteq> []
         else mockParts ! i = requestParts ! i) \<and>
      params = map snd (filter (\<lambda>(t, s). t = ''_'') (zip mockParts requestParts)) \<and>
      n = length (filter (\<lambda>t. t = ''_'') mockParts)"
    unfolding matchParts_eq agree capturedAt_def wildcardCount_def by auto
  have second: "matchParts mockParts requestParts = None"
    if "\<exists>i < length mockParts. mockParts ! i = ''_'' \<and> requestParts ! i = []"
  proof -
    from that obtain i where "i < length mockParts" "\<not> segmentAgrees (mockParts ! i) (requestParts ! i)"
      by (auto simp: agree)
    then show ?thesis unfolding matchParts_eq by auto
  qed
  from first second show ?thesis by blast
qed

theorem matchParts_iff_witness:
  "matchParts [''users'', ''_'', ''profile''] [''users'', ''42'', ''profile''] = Some ([''42''], 1) \<and>
   matchParts [''users'', ''_''] [''users'', []] = None"
proof -
  have a: "matchParts [''users'', ''_'', ''profile''] [''users'', ''42'', ''profile''] = Some ([''42''], 1)"
    by (rule matchParts_iff[THEN conjunct1, THEN iffD2]) (simp add: nth_Cons' less_Suc_eq numeral_3_eq_3)
  have b: "matchParts [''users'', ''_''] [''users'', []] = None"
    by (rule matchParts_iff[THEN conjunct2, THEN mp]) (rule exI[of _ 1], simp)
  from a b show ?thesis by simp
qed

subsection \<open>The walk as a fold over the files it reaches\<close>

lemma walkFn_error: "walkFn b rp st p d (Some e) = (st, Some e)"
  by (simp add: walkFn_def)

lemma walkFn_directory: "walkFn b rp st p True None = (st, None)"
  by (simp add: walkFn_def)

lemma walkFn_file: "walkFn b rp st p False None = (visitFile b rp st p, None)"
  by (simp add: visitFile_def walkFn_def Let_def split: option.splits prod.splits)

lemma walk_reached:
  "walkDir (walkFn b rp) path d st =
     (foldl (visitFile b rp) st (fst (reached path d)), snd (reached path d))"
  "walkEntries (walkFn b rp) path ds st =
     (foldl (visitFile b rp) st (fst (reachedEntries path ds)), snd (reachedEntries path ds))"
proof (induction path d and path ds arbitrary: st and st rule: reached_reachedEntries.induct)
  case (1 path)
  show ?case by (simp add: walkFn_file)
next
  case (2 path dirs)
  then show ?case by (simp add: walkFn_directory)
next
  case (3 path dirs)
  show ?case by (simp add: walkFn_directory walkFn_error)
next
  case (4 path)
  show ?case by simp
next
  case (5 path nd rest)
  show ?case
  proof (cases "snd (reached (filepath_Join path (fst nd)) (snd nd))")
    case None
    obtain fs where r: "reached (filepath_Join path (fst nd)) (snd nd) = (fs, None)"
      using None by (cases "reached (filepath_Join path (fst nd)) (snd nd)") simp
    obtain gs err where e: "reachedEntries path rest = (gs, err)"
      by (cases "reachedEntries path rest")
    show ?thesis using "5.IH"(1)[of st] "5.IH"(2)[OF r[symmetric] refl] r e by simp
  next
    case (Some e)
    obtain fs where r: "reached (filepath_Join path (fst nd)) (snd nd) = (fs, Some e)"
      using Some by (cases "reached (filepath_Join path (fst nd)) (snd nd)") simp
    show ?thesis using "5.IH"(1)[of st] r by simp
  qed
qed

lemma findBestMockFile_reached:
  "findBestMockFile b rq tree =
     (let st = foldl (visitFile b (strings_Split rq CHR ''/'')) \<lparr>bestMatch = [], bestParams = [], bestScore = - 1\<rparr>
                 (fst (reachedFrom b tree))
      in (bestMatch st, bestParams st, snd (reachedFrom b tree)))"
  by (cases tree)
     (simp_all add: findBestMockFile_def filepath_WalkDir_def reachedFrom_def walk_reached walkFn_error Let_def)

subsection \<open>Selection of the first best match\<close>






subsection \<open>Traversal errors\<close>

lemma reachedEntries_unreadable:
  "reachedEntries path (before @ (name, UnreadableDir inside) # after) =
     reachedEntries path (before @ [(name, UnreadableDir [])])"
  by (induction before) (auto split: prod.splits option.splits)

lemma reachedEntries_unreadable_error:
  "snd (reachedEntries path (before @ (name, UnreadableDir inside) # after)) \<noteq> None"
  by (induction before) (auto split: prod.splits option.splits)

text \<open>
  Claim C8, as the code has it.  The callback returns a traversal error it is given,
  which stops the whole walk: the result is the best match among the files reached
  before the error, and the error is what is logged.  Whatever lies inside an unreadable
  directory or follows it in its parent has no influence on the result, and the error
  is always reported.
\<close>

theorem findBestMockFile_stops_at_error:
  "findBestMockFile baseDir requestPath tree =
     (let st = foldl (visitFile baseDir (strings_Split requestPath CHR ''/''))
                 \<lparr>bestMatch = [], bestParams = [], bestScore = - 1\<rparr>
                 (fst (reachedFrom baseDir tree))
      in (bestMatch st, bestParams st, snd (reachedFrom baseDir tree))) \<and>
   findBestMockFile baseDir requestPath (Some (DirNode (before @ (name, UnreadableDir inside) # after))) =
     findBestMockFile baseDir requestPath (Some (DirNode (before @ [(name, UnreadableDir [])]))) \<and>
   snd (snd (findBestMockFile baseDir requestPath
               (Some (DirNode (before @ (name, UnreadableDir inside) # after))))) \<noteq> None"
proof (intro conjI)
  show "findBestMockFile baseDir requestPath tree =
     (let st = foldl (visitFile baseDir (strings_Split requestPath CHR ''/''))
                 \<lparr>bestMatch = [], bestParams = [], bestScore = - 1\<rparr>
                 (fst (reachedFrom baseDir tree))
      in (bestMatch st, bestParams st, snd (reachedFrom baseDir tree)))"
    by (rule findBestMockFile_reached)
  show "findBestMockFile baseDir requestPath (Some (DirNode (before @ (name, UnreadableDir inside) # after))) =
     findBestMockFile baseDir requestPath (Some (DirNode (before @ [(name, UnreadableDir [])])))"
    by (simp add: findBestMockFile_reached reachedFrom_def reachedEntries_unreadable[of baseDir before name inside after])
  show "snd (snd (findBestMockFile baseDir requestPath
               (Some (DirNode (before @ (name, UnreadableDir inside) # after))))) \<noteq> None"
    using reachedEntries_unreadable_error[of baseDir before name inside after]
    by (simp add: findBestMockFile_reached reachedFrom_def Let_def)
qed

theorem findBestMockFile_stops_at_error_witness:
  "findBestMockFile ''mock'' ''b'' (Some (DirNode [(''a'', UnreadableDir []), (''b.json'', FileNode)])) =
     findBestMockFile ''mock'' ''b'' (Some (DirNode [(''a'', UnreadableDir [])]))"
  using findBestMockFile_stops_at_error[of "''mock''" "''b''" None "[]" "''a''" "[]" "[(''b.json'', FileNode)]"]
  by simp

text \<open>
  The claim as stated fails: \<open>b.json\<close> lies outside the unreadable directory \<open>a\<close>
  and matches the request \<open>/b\<close> (it is selected when \<open>a\<close> can be read), yet with
  \<open>a\<close> unreadable nothing is selected.
\<close>

theorem findBestMockFile_skips_subtree_counterexample:
  "matchesRequest ''mock'' (strings_Split ''b'' CHR ''/'') ''mock/b.json'' \<and>
   findBestMockFile ''mock'' ''b'' (Some (DirNode [(''a'', DirNode []), (''b.json'', FileNode)])) =
     (''mock/b.json'', [], None) \<and>
   findBestMockFile ''mock'' ''b'' (Some (DirNode [(''a'', UnreadableDir []), (''b.json'', FileNode)])) =
     ([], [], Some ReadDirError)"
  by code_simp

subsection \<open>Splitting and joining\<close>

lemma HasSuffix_iff: "strings_HasSuffix s suf \<longleftrightarrow> (\<exists>p. s = p @ suf)"
proof
  assume h: "strings_HasSuffix s suf"
  then have "s = take (length s - length suf) s @ suf"
    by (metis append_take_drop_id strings_HasSuffix_def)
  then show "\<exists>p. s = p @ suf" ..
next
  assume "\<exists>p. s = p @ suf"
  then show "strings_HasSuffix s suf" by (auto simp: strings_HasSuffix_def)
qed

lemma HasSuffix_append [simp]: "strings_HasSuffix (p @ suf) suf"
  by (simp add: strings_HasSuffix_def)

lemma TrimSuffix_append [simp]: "strings_TrimSuffix (p @ suf) suf = p"
  by (simp add: strings_TrimSuffix_def)

lemma Split_nonempty [simp]: "strings_Split s c \<noteq> []"
  by (induction s) (auto split: list.splits)

lemma Split_append: "strings_Split (a @ c # b) c = strings_Split a c @ strings_Split b c"
proof (induction a)
  case Nil
  show ?case by simp
next
  case (Cons x xs)
  obtain p ps where sp: "strings_Split xs c = p # ps"
    by (cases "strings_Split xs c") simp_all
  show ?case using Cons sp by simp
qed

lemma Split_nosep: "c \<notin> set s \<Longrightarrow> strings_Split s c = [s]"
  by (induction s) auto

lemma Split_elems_nosep: "x \<in> set (strings_Split s c) \<Longrightarrow> c \<notin> set x"
proof (induction s arbitrary: x)
  case Nil
  then show ?case by simp
next
  case (Cons a s)
  obtain p ps where sp: "strings_Split s c = p # ps"
    by (cases "strings_Split s c") simp_all
  show ?case
  proof (cases "a = c")
    case True
    then show ?thesis using Cons by auto
  next
    case False
    then have "x = a # p \<or> x \<in> set ps" using Cons.prems sp by simp
    then show ?thesis using Cons.IH[of p] Cons.IH[of x] sp False by auto
  qed
qed

lemma Join_snoc: "xs \<noteq> [] \<Longrightarrow> strings_Join (xs @ [y]) sep = strings_Join xs sep @ sep @ y"
  by (induction xs sep rule: strings_Join.induct) auto

lemma Split_Join:
  "xs \<noteq> [] \<Longrightarrow> \<forall>x \<in> set xs. c \<notin> set x \<Longrightarrow> strings_Split (strings_Join xs [c]) c = xs"
proof (induction xs rule: rev_induct)
  case Nil
  then show ?case by simp
next
  case (snoc y xs)
  show ?case
  proof (cases "xs = []")
    case True
    then show ?thesis using snoc.prems by (simp add: Split_nosep)
  next
    case False
    then have "strings_Split (strings_Join xs [c]) c = xs" using snoc by simp
    then show ?thesis using False snoc.prems by (simp add: Join_snoc Split_append Split_nosep)
  qed
qed

lemma Join_last_append:
  "strings_Join (xs @ [a @ b]) sep = strings_Join (xs @ [a]) sep @ b"
  by (cases "xs = []") (simp_all add: Join_snoc)

lemma Join_hd: "xs \<noteq> [] \<Longrightarrow> hd xs \<noteq> [] \<Longrightarrow> strings_Join xs sep \<noteq> [] \<and> hd (strings_Join xs sep) = hd (hd xs)"
  by (induction xs sep rule: strings_Join.induct) auto

lemma Join_last:
  assumes "xs \<noteq> []" "last xs \<noteq> []"
  shows "strings_Join xs sep \<noteq> [] \<and> last (strings_Join xs sep) = last (last xs)"
proof -
  obtain ys y where xs: "xs = ys @ [y]" using assms(1) by (metis rev_exhaust)
  then have y: "y \<noteq> []" using assms(2) by simp
  show ?thesis using y unfolding xs by (cases "ys = []") (simp_all add: Join_snoc)
qed

subsection \<open>Cleaned paths\<close>

lemma dropWhile_butlast_subset:
  "set (dropWhile P (butlast xs)) \<subseteq> set (dropWhile P xs)"
  by (induction xs) (auto dest: in_set_butlastD)

lemma dropWhile_all_same:
  "d \<notin> set (dropWhile (\<lambda>x. x = d) out) \<Longrightarrow> out = [] \<or> last out = d \<Longrightarrow>
   dropWhile (\<lambda>x. x = d) out = []"
proof (induction out)
  case Nil
  show ?case by simp
next
  case (Cons x out)
  show ?case
  proof (cases "x = d")
    case same: True
    have p1: "d \<notin> set (dropWhile (\<lambda>x. x = d) out)" using Cons.prems(1) same by simp
    show ?thesis
    proof (cases "out = []")
      case True
      then show ?thesis using same by simp
    next
      case False
      then have "last out = d" using Cons.prems(2) by simp
      then have "dropWhile (\<lambda>x. x = d) out = []" using Cons.IH p1 by blast
      then show ?thesis using same by simp
    qed
  next
    case False
    have "last (x # out) \<in> set (x # out)" by (rule last_in_set) simp
    then have "d \<in> set (x # out)" using Cons.prems(2) by auto
    moreover have "dropWhile (\<lambda>x. x = d) (x # out) = x # out" using False by simp
    ultimately show ?thesis using Cons.prems(1) by simp
  qed
qed

lemma dropWhile_snoc_other:
  "d \<notin> set (dropWhile (\<lambda>x. x = d) out) \<Longrightarrow> e \<noteq> d \<Longrightarrow>
   d \<notin> set (dropWhile (\<lambda>x. x = d) (out @ [e]))"
  by (induction out) auto

lemma dropWhile_snoc_same:
  "\<forall>x \<in> set out. x = d \<Longrightarrow> dropWhile (\<lambda>x. x = d) (out @ [d]) = []"
  by (induction out) auto

lemma cleanListI:
  "(\<And>x. x \<in> set xs \<Longrightarrow> x \<noteq> [] \<and> x \<noteq> ''.'' \<and> CHR ''/'' \<notin> set x) \<Longrightarrow>
   ''..'' \<notin> set (dropWhile (\<lambda>x. x = ''..'') xs) \<Longrightarrow>
   (rooted \<Longrightarrow> ''..'' \<notin> set xs) \<Longrightarrow> cleanList rooted xs"
  unfolding cleanList_def by blast

lemma cleanListD:
  assumes "cleanList rooted xs"
  shows "\<And>x. x \<in> set xs \<Longrightarrow> x \<noteq> [] \<and> x \<noteq> ''.'' \<and> CHR ''/'' \<notin> set x"
    and "''..'' \<notin> set (dropWhile (\<lambda>x. x = ''..'') xs)"
    and "rooted \<Longrightarrow> ''..'' \<notin> set xs"
  using assms unfolding cleanList_def by blast+

lemma cleanStep_clean:
  assumes c: "cleanList rooted out" and e: "CHR ''/'' \<notin> set e"
  shows "cleanList rooted (cleanStep rooted out e)"
proof -
  let ?d = "''..''"
  let ?P = "\<lambda>x. x = ?d"
  note el = cleanListD(1)[OF c] and dw = cleanListD(2)[OF c] and ro = cleanListD(3)[OF c]
  consider (skip) "e = [] \<or> e = ''.''"
    | (pop) "e \<noteq> []" "e \<noteq> ''.''" "e = ?d" "out \<noteq> [] \<and> last out \<noteq> ?d"
    | (root) "e \<noteq> []" "e \<noteq> ''.''" "e = ?d" "\<not> (out \<noteq> [] \<and> last out \<noteq> ?d)" "rooted"
    | (push) "e \<noteq> []" "e \<noteq> ''.''" "e = ?d" "\<not> (out \<noteq> [] \<and> last out \<noteq> ?d)" "\<not> rooted"
    | (name) "e \<noteq> []" "e \<noteq> ''.''" "e \<noteq> ?d"
    by blast
  then show ?thesis
  proof cases
    case skip
    then have "cleanStep rooted out e = out" unfolding cleanStep_def by (simp only: if_True)
    then show ?thesis using c by simp
  next
    case pop
    have eq: "cleanStep rooted out e = butlast out"
      unfolding cleanStep_def using pop by (simp only: if_True if_False simp_thms)
    have sub: "\<And>x. x \<in> set (butlast out) \<Longrightarrow> x \<in> set out" by (rule in_set_butlastD)
    have d2: "?d \<notin> set (dropWhile ?P (butlast out))"
      using dw dropWhile_butlast_subset[of ?P out] by blast
    have "cleanList rooted (butlast out)"
      by (rule cleanListI) (use el ro sub d2 in blast)+
    then show ?thesis by (simp only: eq)
  next
    case root
    have eq: "cleanStep rooted out e = out"
      unfolding cleanStep_def using root by (simp only: if_True if_False simp_thms)
    show ?thesis using c by (simp only: eq)
  next
    case push
    have eq: "cleanStep rooted out e = out @ [?d]"
      unfolding cleanStep_def using push by (simp only: if_True if_False simp_thms)
    have "out = [] \<or> last out = ?d" using push(4) by blast
    then have "dropWhile ?P out = []" using dw by (rule dropWhile_all_same[rotated])
    then have all: "\<forall>x \<in> set out. x = ?d" by (simp only: dropWhile_eq_Nil_conv)
    have d3: "dropWhile ?P (out @ [?d]) = []" using all by (rule dropWhile_snoc_same)
    have "cleanList rooted (out @ [?d])"
    proof (rule cleanListI)
      fix x assume "x \<in> set (out @ [?d])"
      then have "x = ?d" using all by auto
      then show "x \<noteq> [] \<and> x \<noteq> ''.'' \<and> CHR ''/'' \<notin> set x" by simp
    next
      show "?d \<notin> set (dropWhile ?P (out @ [?d]))" by (simp only: d3) simp
    next
      assume rooted
      then show "?d \<notin> set (out @ [?d])" using push(5) by blast
    qed
    then show ?thesis by (simp only: eq)
  next
    case name
    have eq: "cleanStep rooted out e = out @ [e]"
      unfolding cleanStep_def using name by (simp only: if_True if_False simp_thms)
    have "cleanList rooted (out @ [e])"
    proof (rule cleanListI)
      fix x assume "x \<in> set (out @ [e])"
      then have "x \<in> set out \<or> x = e" by auto
      then show "x \<noteq> [] \<and> x \<noteq> ''.'' \<and> CHR ''/'' \<notin> set x"
        using el name e by blast
    next
      show "?d \<notin> set (dropWhile ?P (out @ [e]))"
        using dw name(3) by (rule dropWhile_snoc_other)
    next
      assume rooted
      then have "?d \<notin> set out" by (rule ro)
      then show "?d \<notin> set (out @ [e])" using name(3) by auto
    qed
    then show ?thesis by (simp only: eq)
  qed
qed

lemma foldl_cleanStep_clean:
  "cleanList rooted acc \<Longrightarrow> \<forall>e \<in> set es. CHR ''/'' \<notin> set e \<Longrightarrow>
   cleanList rooted (foldl (cleanStep rooted) acc es)"
  by (induction es arbitrary: acc) (simp_all add: cleanStep_clean)

lemma cleanElems_clean: "cleanList (isRooted p) (cleanElems p)"
  unfolding cleanElems_def
  by (rule foldl_cleanStep_clean) (auto simp: cleanList_def dest: Split_elems_nosep)

lemma foldl_cleanStep_id:
  "cleanList rooted (acc @ xs) \<Longrightarrow> foldl (cleanStep rooted) acc xs = acc @ xs"
proof (induction xs arbitrary: acc)
  case Nil
  show ?case by simp
next
  case (Cons x xs)
  let ?P = "\<lambda>x. x = ''..''"
  from Cons.prems have x: "x \<noteq> []" "x \<noteq> ''.''"
    and dw: "''..'' \<notin> set (dropWhile ?P (acc @ x # xs))"
    and ro: "rooted \<longrightarrow> ''..'' \<notin> set (acc @ x # xs)"
    by (auto simp: cleanList_def)
  have step: "cleanStep rooted acc x = acc @ [x]"
  proof (cases "x = ''..''")
    case False
    then show ?thesis using x by (simp add: cleanStep_def)
  next
    case True
    then have nr: "\<not> rooted" using ro by auto
    have "\<forall>a \<in> set acc. a = ''..''"
    proof (rule ccontr)
      assume "\<not> (\<forall>a \<in> set acc. a = ''..'')"
      then obtain a where "a \<in> set acc" "a \<noteq> ''..''" by blast
      then have "dropWhile ?P (acc @ x # xs) = dropWhile ?P acc @ x # xs" by simp
      then show False using dw True by simp
    qed
    then have "acc = [] \<or> last acc = ''..''" by (cases "acc = []") auto
    then show ?thesis using True nr by (auto simp: cleanStep_def)
  qed
  have "cleanList rooted ((acc @ [x]) @ xs)" using Cons.prems by simp
  from Cons.IH[OF this] show ?case using step by simp
qed

lemma cleanList_append_proper:
  assumes "cleanList rooted xs" "\<forall>n \<in> set ns. properName n"
  shows "cleanList rooted (xs @ ns)"
proof -
  let ?P = "\<lambda>x. x = ''..''"
  have nd: "''..'' \<notin> set ns" using assms(2) by (auto simp: properName_def)
  have "set (dropWhile ?P (xs @ ns)) \<subseteq> set (dropWhile ?P xs) \<union> set ns"
    by (auto simp: dropWhile_append dest: set_dropWhileD)
  then have "''..'' \<notin> set (dropWhile ?P (xs @ ns))"
    using assms(1) nd by (auto simp: cleanList_def)
  then show ?thesis using assms nd by (auto simp: cleanList_def properName_def)
qed

lemma isRooted_render:
  assumes "cleanList rooted ys" "ys \<noteq> [] \<or> rooted"
  shows "renderPath rooted ys \<noteq> [] \<and> isRooted (renderPath rooted ys) = rooted"
proof (cases rooted)
  case True
  then show ?thesis by (simp add: renderPath_def isRooted_def)
next
  case False
  then have ne: "ys \<noteq> []" using assms by simp
  then have "hd ys \<in> set ys" by simp
  then have h: "hd ys \<noteq> []" "CHR ''/'' \<notin> set (hd ys)" using assms(1) by (auto simp: cleanList_def)
  then have "hd (hd ys) \<noteq> CHR ''/''" by (cases "hd ys") auto
  then show ?thesis using False ne Join_hd[OF ne h(1), of "''/''"]
    by (auto simp: renderPath_def isRooted_def split: list.splits)
qed

lemma Split_render:
  assumes "cleanList rooted ys" "ys \<noteq> [] \<or> rooted"
  shows "strings_Split (renderPath rooted ys) CHR ''/'' =
           (if rooted then (if ys = [] then [[], []] else [] # ys) else ys)"
proof -
  have ns: "\<forall>x \<in> set ys. CHR ''/'' \<notin> set x" using assms(1) by (auto simp: cleanList_def)
  show ?thesis using assms(2) Split_Join[of ys "CHR ''/''"] ns
    by (auto simp: renderPath_def)
qed

lemma cleanElems_render:
  assumes "cleanList rooted ys" "ys \<noteq> [] \<or> rooted"
  shows "cleanElems (renderPath rooted ys) = ys"
proof -
  have r: "isRooted (renderPath rooted ys) = rooted" using isRooted_render[OF assms] by simp
  have id: "foldl (cleanStep rooted) [] ys = ys" using foldl_cleanStep_id[of rooted "[]" ys] assms(1) by simp
  show ?thesis
    unfolding cleanElems_def r Split_render[OF assms]
    using id by (auto simp: cleanStep_def)
qed

lemma Clean_render:
  assumes "cleanList rooted ys" "ys \<noteq> [] \<or> rooted"
  shows "filepath_Clean (renderPath rooted ys) = renderPath rooted ys"
  using isRooted_render[OF assms] cleanElems_render[OF assms] by (simp add: filepath_Clean_def)

subsection \<open>Paths under the base directory\<close>

lemma isRooted_append: "p \<noteq> [] \<Longrightarrow> isRooted (p @ q) = isRooted p"
  by (cases p) (simp_all add: isRooted_def)

lemma cleanStep_proper: "properName n \<Longrightarrow> cleanStep rooted out n = out @ [n]"
  by (simp add: cleanStep_def properName_def)

lemma cleanElems_append_name:
  assumes "p \<noteq> []" "properName n"
  shows "cleanElems (p @ CHR ''/'' # n) = cleanElems p @ [n]"
proof -
  have sl: "CHR ''/'' \<notin> set n" using assms(2) by (simp add: properName_def)
  have r: "isRooted (p @ CHR ''/'' # n) = isRooted p" using assms(1) by (rule isRooted_append)
  have "strings_Split (p @ CHR ''/'' # n) CHR ''/'' = strings_Split p CHR ''/'' @ [n]"
    using Split_append[of p "CHR ''/''" n] Split_nosep[OF sl] by simp
  then show ?thesis
    unfolding cleanElems_def r by (simp add: cleanStep_proper[OF assms(2)])
qed

lemma filepath_Join_proper:
  assumes "p \<noteq> []" "properName n"
  shows "filepath_Join p n = renderPath (isRooted p) (cleanElems p @ [n])"
  using assms isRooted_append[of p "CHR ''/'' # n"]
  by (simp add: filepath_Join_def filepath_Clean_def cleanElems_append_name)

lemma walk_path:
  assumes p: "p \<noteq> []" and ns: "\<forall>n \<in> set ns. properName n" and ne: "ns \<noteq> []"
  shows "foldl filepath_Join p ns = renderPath (isRooted p) (cleanElems p @ ns)"
  using ns ne
proof (induction ns rule: rev_induct)
  case Nil
  then show ?case by simp
next
  case (snoc n ms)
  have n: "properName n" using snoc.prems by simp
  show ?case
  proof (cases "ms = []")
    case True
    then show ?thesis using filepath_Join_proper[OF p n] by simp
  next
    case False
    let ?r = "isRooted p"
    let ?q = "renderPath ?r (cleanElems p @ ms)"
    have q: "foldl filepath_Join p ms = ?q" using snoc False by simp
    have cl: "cleanList ?r (cleanElems p @ ms)"
      using cleanElems_clean[of p] snoc.prems by (intro cleanList_append_proper) auto
    have nz: "cleanElems p @ ms \<noteq> [] \<or> ?r" using False by simp
    have q1: "?q \<noteq> []" "isRooted ?q = ?r" using isRooted_render[OF cl nz] by simp_all
    have q2: "cleanElems ?q = cleanElems p @ ms" by (rule cleanElems_render[OF cl nz])
    have "foldl filepath_Join p (ms @ [n]) = filepath_Join ?q n" by (simp add: q)
    also have "\<dots> = renderPath ?r ((cleanElems p @ ms) @ [n])"
      using filepath_Join_proper[OF q1(1) n] by (simp only: q1 q2)
    finally show ?thesis by simp
  qed
qed

lemma dropCommon_prefix: "dropCommon xs (xs @ ys) = ([], ys)"
proof (induction xs)
  case Nil
  show ?case by (cases ys) simp_all
next
  case (Cons x xs)
  then show ?case by simp
qed

lemma relElems_render:
  assumes cl: "cleanList rooted ys" and nz: "ys \<noteq> [] \<or> rooted"
  shows "relElems (renderPath rooted ys) = (if rooted then [] # ys else ys)"
proof (cases "ys = []")
  case True
  then have "rooted" using nz by simp
  then show ?thesis using True by (simp add: renderPath_def relElems_def)
next
  case False
  then have "last ys \<in> set ys" by simp
  then have l: "last ys \<noteq> []" "CHR ''/'' \<notin> set (last ys)"
    using cleanListD(1)[OF cl] by blast+
  then have "last (last ys) \<in> set (last ys)" by simp
  then have "last (last ys) \<noteq> CHR ''/''" using l(2) by metis
  then have j: "strings_Join ys ''/'' \<noteq> []" "last (strings_Join ys ''/'') \<noteq> CHR ''/''"
    using Join_last[OF False l(1), of "''/''"] by simp_all
  have ne: "renderPath rooted ys \<noteq> []" using isRooted_render[OF cl nz] by simp
  have la: "last (renderPath rooted ys) \<noteq> CHR ''/''"
    using j False by (simp add: renderPath_def)
  show ?thesis
    unfolding relElems_def using ne la Split_render[OF cl nz] False by simp
qed

lemma cleanElems_render_all:
  assumes cl: "cleanList rooted ys"
  shows "cleanElems (renderPath rooted ys) = ys"
proof (cases "ys \<noteq> [] \<or> rooted")
  case True
  then show ?thesis using cleanElems_render[OF cl] by simp
next
  case False
  then have "renderPath rooted ys = ''.''" by (simp add: renderPath_def)
  moreover have "cleanElems ''.'' = []" by code_simp
  ultimately show ?thesis using False by simp
qed

lemma filepath_Rel_under:
  assumes base: "base \<noteq> []" and comps: "comps \<noteq> []" "\<forall>n \<in> set comps. properName n"
  shows "filepath_Rel base (renderPath (isRooted base) (cleanElems base @ comps)) =
           Some (strings_Join comps ''/'')"
proof -
  let ?r = "isRooted base"
  let ?xs = "cleanElems base"
  let ?targ = "renderPath ?r (?xs @ comps)"
  have cx: "cleanList ?r ?xs" by (rule cleanElems_clean)
  have ct: "cleanList ?r (?xs @ comps)" using cx comps(2) by (rule cleanList_append_proper)
  have nz: "?xs @ comps \<noteq> [] \<or> ?r" using comps(1) by simp
  have targ: "filepath_Clean ?targ = ?targ" by (rule Clean_render[OF ct nz])
  have cb: "filepath_Clean base = renderPath ?r ?xs" by (simp add: filepath_Clean_def)
  have ne: "?targ \<noteq> renderPath ?r ?xs"
  proof
    assume "?targ = renderPath ?r ?xs"
    then have "cleanElems ?targ = cleanElems (renderPath ?r ?xs)" by simp
    then have "?xs @ comps = ?xs"
      by (simp only: cleanElems_render_all[OF ct] cleanElems_render_all[OF cx])
    then show False using comps(1) by simp
  qed
  have rt: "isRooted ?targ = ?r" using isRooted_render[OF ct nz] by simp
  have et: "relElems ?targ = (if ?r then [] # (?xs @ comps) else ?xs @ comps)"
    by (rule relElems_render[OF ct nz])
  let ?b = "if renderPath ?r ?xs = ''.'' then [] else renderPath ?r ?xs"
  have bfacts: "isRooted ?b = ?r \<and> relElems ?b = (if ?r then [] # ?xs else ?xs)"
  proof (cases "?xs \<noteq> [] \<or> ?r")
    case True
    have notdot: "renderPath ?r ?xs \<noteq> ''.''"
    proof
      assume "renderPath ?r ?xs = ''.''"
      then have "cleanElems (renderPath ?r ?xs) = cleanElems ''.''" by simp
      moreover have "cleanElems ''.'' = []" by code_simp
      ultimately have "?xs = []" by (simp only: cleanElems_render_all[OF cx])
      then have "?r" using True by simp
      then have "isRooted (renderPath ?r ?xs)" using isRooted_render[OF cx True] by simp
      moreover have "\<not> isRooted ''.''" by (simp add: isRooted_def)
      ultimately show False using \<open>renderPath ?r ?xs = ''.''\<close> by simp
    qed
    show ?thesis using notdot isRooted_render[OF cx True] relElems_render[OF cx True] by simp
  next
    case False
    then have "renderPath ?r ?xs = ''.''" by (simp add: renderPath_def)
    then show ?thesis using False by (simp add: isRooted_def relElems_def)
  qed
  have dc: "dropCommon (relElems ?b) (relElems ?targ) = ([], comps)"
    using bfacts et dropCommon_prefix[of "if ?r then [] # ?xs else ?xs" comps] by (simp split: if_splits)
  show ?thesis
    unfolding filepath_Rel_def Let_def targ cb
    using ne bfacts rt dc by (simp del: dropCommon.simps)
qed

subsection \<open>The route template of a walked file\<close>

lemma renderPath_last_append:
  "renderPath rooted (ys @ [a @ b]) = renderPath rooted (ys @ [a]) @ b"
  by (simp add: renderPath_def Join_last_append)

lemma renderPath_snoc:
  "ys \<noteq> [] \<Longrightarrow> renderPath rooted (ys @ [a]) = renderPath rooted ys @ ''/'' @ a"
  by (simp add: renderPath_def Join_snoc)

lemma last_Split_render:
  assumes cl: "cleanList rooted ys" and ne: "ys \<noteq> []"
  shows "last (strings_Split (renderPath rooted ys) CHR ''/'') = last ys"
  using Split_render[OF cl] ne by simp

lemma last_Split_suffix:
  "CHR ''/'' \<notin> set b \<Longrightarrow> last (strings_Split (p @ CHR ''/'' # b) CHR ''/'') = b"
  by (simp add: Split_append Split_nosep)

text \<open>
  Claim C7, as the code has it.  The walk reaches the file \<open>stem.json\<close> in the
  directories \<open>dirs\<close> below the base directory under the path
  \<open>Join(... Join(baseDir, d1) ..., stem.json)\<close>.  When the directory names and the
  stem are ordinary names (not empty, no separator, neither \<open>.\<close> nor \<open>..\<close>) and the
  file is not \<open>index.json\<close> directly in the base directory, the template the
  callback computes is the one the spec derives from the relative path: the directory
  names followed by the stem, without a last segment \<open>index\<close>.
\<close>

theorem mockPartsOf_template:
  assumes base: "baseDir \<noteq> []"
    and dirs: "\<forall>d \<in> set dirs. properName d"
    and stem: "properName stem"
    and notroot: "\<not> (dirs = [] \<and> stem = ''index'')"
  shows "mockPartsOf baseDir (foldl filepath_Join baseDir (dirs @ [stem @ ''.json''])) =
           specTemplate (strings_Join (dirs @ [stem @ ''.json'']) ''/'') \<and>
         mockPartsOf baseDir (foldl filepath_Join baseDir (dirs @ [stem @ ''.json''])) =
           (if stem = ''index'' then dirs else dirs @ [stem])"
proof -
  let ?r = "isRooted baseDir"
  let ?xs = "cleanElems baseDir"
  let ?file = "stem @ ''.json''"
  let ?path = "foldl filepath_Join baseDir (dirs @ [?file])"
  have fname: "properName ?file"
    using stem by (auto simp: properName_def)
  have names: "\<forall>n \<in> set (dirs @ [?file]). properName n" using dirs fname by simp
  have path: "?path = renderPath ?r (?xs @ dirs @ [stem]) @ ''.json''"
    using walk_path[OF base names] renderPath_last_append[of ?r "?xs @ dirs" stem "''.json''"]
    by simp
  have rel1: "strings_TrimSuffix ?path ''.json'' = renderPath ?r (?xs @ dirs @ [stem])"
    unfolding path by (rule TrimSuffix_append)
  have cs: "cleanList ?r (?xs @ dirs @ [stem])"
    using cleanElems_clean[of baseDir] dirs stem by (intro cleanList_append_proper) auto
  have cd: "cleanList ?r (?xs @ dirs)"
    using cleanElems_clean[of baseDir] dirs by (intro cleanList_append_proper) auto
  have sl: "\<forall>x \<in> set (dirs @ [stem]). CHR ''/'' \<notin> set x"
    using dirs stem by (auto simp: properName_def)
  have sj: "strings_Join (dirs @ [?file]) ''/'' = strings_Join (dirs @ [stem]) ''/'' @ ''.json''"
    by (rule Join_last_append)
  have spec_segs: "strings_Split (strings_TrimSuffix (strings_Join (dirs @ [?file]) ''/'') ''.json'') CHR ''/''
                     = dirs @ [stem]"
    unfolding sj TrimSuffix_append using Split_Join[of "dirs @ [stem]" "CHR ''/''"] sl by simp
  have spec: "specTemplate (strings_Join (dirs @ [?file]) ''/'') = (if stem = ''index'' then dirs else dirs @ [stem])"
    unfolding specTemplate_def spec_segs by (simp add: Let_def)
  have code: "mockPartsOf baseDir ?path = (if stem = ''index'' then dirs else dirs @ [stem])"
  proof (cases "stem = ''index''")
    case True
    then have dne: "dirs \<noteq> []" using notroot by simp
    have "renderPath ?r (?xs @ dirs @ [stem]) = renderPath ?r (?xs @ dirs) @ ''/index''"
      using renderPath_snoc[of "?xs @ dirs" ?r stem] dne True by simp
    then have rel2: "strings_HasSuffix (strings_TrimSuffix ?path ''.json'') ''/index''"
      and rel3: "strings_TrimSuffix (strings_TrimSuffix ?path ''.json'') ''/index'' = renderPath ?r (?xs @ dirs)"
      unfolding rel1 by simp_all
    have "filepath_Rel baseDir (renderPath ?r (?xs @ dirs)) = Some (strings_Join dirs ''/'')"
      using filepath_Rel_under[OF base dne] dirs by simp
    moreover have "strings_Split (strings_Join dirs ''/'') CHR ''/'' = dirs"
      using Split_Join[of dirs "CHR ''/''"] dne sl by simp
    ultimately show ?thesis
      unfolding mockPartsOf_def Let_def using rel2 rel3 True by simp
  next
    case False
    have nosuf: "\<not> strings_HasSuffix (strings_TrimSuffix ?path ''.json'') ''/index''"
    proof
      assume "strings_HasSuffix (strings_TrimSuffix ?path ''.json'') ''/index''"
      then obtain p where p: "renderPath ?r (?xs @ dirs @ [stem]) = p @ ''/index''"
        unfolding rel1 HasSuffix_iff by blast
      have "last (strings_Split (p @ ''/index'') CHR ''/'') = ''index''"
        using last_Split_suffix[of "''index''" p] by simp
      moreover have "last (strings_Split (renderPath ?r (?xs @ dirs @ [stem])) CHR ''/'') = stem"
        using last_Split_render[OF cs] by simp
      ultimately show False using p False by simp
    qed
    have "filepath_Rel baseDir (renderPath ?r (?xs @ dirs @ [stem])) = Some (strings_Join (dirs @ [stem]) ''/'')"
      using filepath_Rel_under[OF base, of "dirs @ [stem]"] dirs stem by simp
    moreover have "strings_Split (strings_Join (dirs @ [stem]) ''/'') CHR ''/'' = dirs @ [stem]"
      using Split_Join[of "dirs @ [stem]" "CHR ''/''"] sl by simp
    ultimately show ?thesis
      unfolding mockPartsOf_def Let_def using nosuf rel1 False by simp
  qed
  show ?thesis using spec code by simp
qed

text \<open>The examples of the spec: \<open>users/index.json\<close> and \<open>users/_/created.json\<close>.\<close>

theorem mockPartsOf_template_witness:
  "mockPartsOf ''mock'' (foldl filepath_Join ''mock'' [''users'', ''index.json'']) = [''users''] \<and>
   mockPartsOf ''mock'' (foldl filepath_Join ''mock'' [''users'', ''_'', ''created.json'']) =
     [''users'', ''_'', ''created'']"
proof -
  have b: "''mock'' \<noteq> []" by simp
  have p1: "\<forall>d \<in> set [''users'']. properName d" by (simp add: properName_def)
  have p2: "properName ''index''" by (simp add: properName_def)
  have p3: "\<not> ([''users''] = [] \<and> ''index'' = ''index'')" by simp
  have q1: "\<forall>d \<in> set [''users'', ''_'']. properName d" by (simp add: properName_def)
  have q2: "properName ''created''" by (simp add: properName_def)
  have q3: "\<not> ([''users'', ''_''] = [] \<and> ''created'' = ''index'')" by simp
  from mockPartsOf_template[OF b p1 p2 p3, THEN conjunct2]
       mockPartsOf_template[OF b q1 q2 q3, THEN conjunct2]
  show ?thesis by simp
qed

text \<open>
  The claim as stated, for every \<open>.json\<close> file, fails: \<open>index.json\<close> directly in
  the base directory gets the template \<open>["."]\<close> (\<open>filepath.Rel\<close> of the base to
  itself), where stripping and splitting leave no segment; and a file named \<open>.json\<close>
  in \<open>users\<close> gets \<open>["users"]\<close> (\<open>filepath.Rel\<close> cleans the trailing separator
  away), where splitting gives a last, empty segment.
\<close>

theorem mockPartsOf_template_counterexample:
  "mockPartsOf ''mock'' (foldl filepath_Join ''mock'' [''index.json'']) = [''.''] \<and>
   specTemplate (strings_Join [''index.json''] ''/'') = [] \<and>
   mockPartsOf ''mock'' (foldl filepath_Join ''mock'' [''users'', ''.json'']) = [''users''] \<and>
   specTemplate (strings_Join [''users'', ''.json''] ''/'') = [''users'', []]"
  by code_simp

subsection \<open>Matches of the placeholder pattern\<close>

lemma isDigit_not_brace [simp]: "\<not> isDigit CHR ''}''" "\<not> isDigit CHR ''{''"
  by (simp_all add: isDigit_def)

lemma matchHere_token:
  assumes "ds \<noteq> []" "list_all isDigit ds"
  shows "matchHere (''{path.'' @ ds @ ''}'' @ rest) = Some (ds, rest)"
proof -
  have tw: "takeWhile isDigit (ds @ CHR ''}'' # rest) = ds"
    using assms(2) by (simp add: list_all_iff takeWhile_append2 takeWhile_tail)
  have dw: "dropWhile isDigit (ds @ CHR ''}'' # rest) = CHR ''}'' # rest"
    using assms(2) by (simp add: list_all_iff dropWhile_append2)
  show ?thesis
    using assms(1) by (simp add: matchHere_def strings_HasPrefix_def tw dw)
qed

lemma matchHere_digits:
  "matchHere s = Some (ds, rest) \<Longrightarrow> ds \<noteq> [] \<and> list_all isDigit ds"
  by (auto simp: matchHere_def Let_def list_all_iff split: if_splits dest: set_takeWhileD)

lemma findMatch_digits:
  "findMatch s = Some (pre, ds, rest) \<Longrightarrow> ds \<noteq> [] \<and> list_all isDigit ds"
proof (induction s arbitrary: pre)
  case Nil
  then show ?case by simp
next
  case (Cons c cs)
  show ?case
  proof (cases "matchHere (c # cs)")
    case (Some m)
    then have "matchHere (c # cs) = Some (ds, rest)"
      using Cons.prems by (auto split: prod.splits)
    then show ?thesis by (rule matchHere_digits)
  next
    case None
    then obtain pre' where "findMatch cs = Some (pre', ds, rest)"
      using Cons.prems by (auto split: option.splits)
    then show ?thesis by (rule Cons.IH)
  qed
qed

lemma tokenFree_tl: "tokenFree (c # a) \<Longrightarrow> tokenFree a"
  unfolding tokenFree_def by (metis append_Cons)

lemma token_tail_no_brace:
  "list_all isDigit ds \<Longrightarrow> CHR ''{'' \<notin> set (''path.'' @ ds @ ''}'')"
  by (auto simp: list_all_iff)

lemma matchHere_inside:
  assumes m: "matchHere (a @ ''{path.'' @ ds @ ''}'' @ b) = Some (ds', r)" and a: "a \<noteq> []"
  shows "\<not> tokenFree a"
proof -
  define tok where "tok = ''{path.'' @ ds @ ''}'' @ b"
  define tok' where "tok' = ''{path.'' @ ds' @ ''}''"
  have dg: "ds' \<noteq> []" "list_all isDigit ds'" using matchHere_digits[OF m] by simp_all
  have hd_tok: "tok \<noteq> []" "hd tok = CHR ''{''" by (simp_all add: tok_def)
  have tl_tok': "tl tok' = ''path.'' @ ds' @ ''}''" by (simp add: tok'_def)
  have "a @ tok = ''{path.'' @ ds' @ ''}'' @ r"
    using matchHere_shape[OF m] by (simp only: tok_def)
  then have eq: "a @ tok = tok' @ r" by (simp only: tok'_def append_assoc)
  then obtain us where us: "a = tok' @ us \<and> us @ tok = r \<or> a @ us = tok' \<and> tok = us @ r"
    unfolding append_eq_append_conv2 by blast
  have inside: "\<not> tokenFree a" if "a = tok' @ vs" for vs
  proof -
    have "a = [] @ ''{path.'' @ ds' @ ''}'' @ vs" using that by (simp only: tok'_def append_assoc append_Nil)
    then show ?thesis unfolding tokenFree_def using dg by blast
  qed
  show ?thesis
  proof (cases "a = tok' @ us \<and> us @ tok = r")
    case True
    then show ?thesis using inside by blast
  next
    case False
    then have ac: "a @ us = tok'" "tok = us @ r" using us by blast+
    show ?thesis
    proof (cases "us = []")
      case True
      then have "a = tok' @ []" using ac(1) by simp
      then show ?thesis by (rule inside)
    next
      case False
      then have "hd us = CHR ''{''" using ac(2) hd_tok by (metis hd_append2)
      then have b1: "CHR ''{'' \<in> set us" using False by (metis hd_in_set)
      obtain c a' where ca: "a = c # a'" using a by (cases a) auto
      have "tl (a @ us) = a' @ us" by (simp add: ca)
      then have "a' @ us = ''path.'' @ ds' @ ''}''" using ac(1) tl_tok' by simp
      then have "set us \<subseteq> set (''path.'' @ ds' @ ''}'')" by (metis set_append Un_upper2)
      then have "CHR ''{'' \<in> set (''path.'' @ ds' @ ''}'')" using b1 by blast
      then show ?thesis using token_tail_no_brace[OF dg(2)] by blast
    qed
  qed
qed

lemma findMatch_first:
  assumes "tokenFree a" "ds \<noteq> []" "list_all isDigit ds"
  shows "findMatch (a @ ''{path.'' @ ds @ ''}'' @ b) = Some (a, ds, b)"
  using assms(1)
proof (induction a)
  case Nil
  have "findMatch (''{path.'' @ ds @ ''}'' @ b) = Some ([], ds, b)"
    using matchHere_token[OF assms(2,3), of b] by simp
  then show ?case by simp
next
  case (Cons c a)
  have "matchHere ((c # a) @ ''{path.'' @ ds @ ''}'' @ b) = None"
  proof (cases "matchHere ((c # a) @ ''{path.'' @ ds @ ''}'' @ b)")
    case None
    then show ?thesis .
  next
    case (Some m)
    obtain ds' r where "m = (ds', r)" by (cases m)
    then have "\<not> tokenFree (c # a)" using matchHere_inside[of "c # a" ds b ds' r] Some by simp
    then show ?thesis using Cons.prems by simp
  qed
  moreover have "findMatch (a @ ''{path.'' @ ds @ ''}'' @ b) = Some (a, ds, b)"
    using Cons.IH tokenFree_tl[OF Cons.prems] by simp
  ultimately show ?case by simp
qed

lemma findMatch_tokenFree:
  assumes "tokenFree a"
  shows "findMatch a = None"
proof (cases "findMatch a")
  case None
  then show ?thesis .
next
  case (Some m)
  obtain pre ds rest where m: "m = (pre, ds, rest)" by (cases m)
  have "a = pre @ ''{path.'' @ ds @ ''}'' @ rest" using findMatch_shape Some m by simp
  moreover have "ds \<noteq> [] \<and> list_all isDigit ds" using findMatch_digits Some m by simp
  ultimately show ?thesis using assms unfolding tokenFree_def by blast
qed

subsection \<open>Expansion of the placeholders\<close>

lemma tokenFree_iff_findMatch: "tokenFree a \<longleftrightarrow> findMatch a = None"
proof
  assume "tokenFree a"
  then show "findMatch a = None" by (rule findMatch_tokenFree)
next
  assume none: "findMatch a = None"
  have found: "findMatch (u @ ''{path.'' @ ds @ ''}'' @ v) \<noteq> None"
    if "ds \<noteq> []" "list_all isDigit ds" for u ds v
  proof (induction u)
    case Nil
    show ?case using matchHere_token[OF that, of v] by simp
  next
    case (Cons c u)
    then show ?case by (auto split: option.splits)
  qed
  show "tokenFree a" unfolding tokenFree_def using none found by blast
qed

lemma FindStringSubmatch_token:
  assumes "ds \<noteq> []" "list_all isDigit ds"
  shows "regexp_FindStringSubmatch (''{path.'' @ ds @ ''}'') = [''{path.'' @ ds @ ''}'', ds]"
proof -
  have "matchHere (''{path.'' @ ds @ ''}'' @ []) = Some (ds, [])"
    by (rule matchHere_token[OF assms])
  then have "findMatch (''{path.'' @ ds @ ''}'') = Some ([], ds, [])" by simp
  then show ?thesis unfolding regexp_FindStringSubmatch_def by simp
qed

lemma Atoi_digits:
  assumes "ds \<noteq> []" "list_all isDigit ds"
  shows "strconv_Atoi ds =
           (if int (digitsVal ds) < 2 ^ 63 then Some (int (digitsVal ds)) else None)"
proof -
  obtain c r where ds: "ds = c # r" using assms(1) by (cases ds) auto
  then have "isDigit c" using assms(2) by simp
  then have "c \<noteq> CHR ''-''" "c \<noteq> CHR ''+''" by (auto simp: isDigit_def)
  then have "(case ds of [] \<Rightarrow> (False, []) | c # r \<Rightarrow> if c = CHR ''-'' then (True, r)
                       else if c = CHR ''+'' then (False, r) else (False, ds)) = (False, ds)"
    by (simp add: ds)
  then show ?thesis unfolding strconv_Atoi_def using assms by simp
qed

lemma replaceFn_token:
  assumes ds: "ds \<noteq> []" "list_all isDigit ds" and len: "length params < 2 ^ 63"
  shows "replaceFn params (''{path.'' @ ds @ ''}'') =
           (if digitsVal ds < length params then params ! digitsVal ds else ''{path.'' @ ds @ ''}'')"
proof -
  have sub: "regexp_FindStringSubmatch (''{path.'' @ ds @ ''}'') ! 1 = ds"
    by (simp only: FindStringSubmatch_token[OF ds]) simp
  show ?thesis
  proof (cases "int (digitsVal ds) < 2 ^ 63")
    case True
    then have "strconv_Atoi ds = Some (int (digitsVal ds))" using Atoi_digits[OF ds] by simp
    then show ?thesis unfolding replaceFn_def Let_def sub using ds(1) by simp
  next
    case False
    then have "strconv_Atoi ds = None" using Atoi_digits[OF ds] by simp
    moreover have "\<not> digitsVal ds < length params"
    proof
      assume "digitsVal ds < length params"
      then have "int (digitsVal ds) < int (length params)" by simp
      also have "\<dots> < 2 ^ 63" using len by (metis of_nat_less_iff of_nat_numeral of_nat_power)
      finally show False using False by simp
    qed
    ultimately show ?thesis unfolding replaceFn_def Let_def sub using ds(1) by simp
  qed
qed

text \<open>
  Claim C4.  With the captured parameters \<open>params\<close> (a Go slice, so shorter than
  \<open>2^63\<close>): a text without a token is returned unchanged; and in a text that starts
  with a token-free part \<open>a\<close> followed by the token \<open>{path.N}\<close> (\<open>N\<close> the decimal
  digits \<open>ds\<close>), \<open>a\<close> is kept, the token is replaced by \<open>params[N]\<close> exactly when
  \<open>N\<close> is an index into \<open>params\<close> and is kept as it is otherwise, and the rest
  \<open>b\<close> is expanded in the same way.  The callback's \<open>FindStringSubmatch(match)[1]\<close>
  is in range on every match, so no error arises.
\<close>

theorem replacePathParams_tokens:
  assumes len: "length params < 2 ^ 63"
  shows "(tokenFree a \<longrightarrow> replacePathParams params a = a) \<and>
         (tokenFree a \<and> ds \<noteq> [] \<and> list_all isDigit ds \<longrightarrow>
            regexp_FindStringSubmatch (''{path.'' @ ds @ ''}'') = [''{path.'' @ ds @ ''}'', ds] \<and>
            replacePathParams params (a @ ''{path.'' @ ds @ ''}'' @ b) =
              a @ (if digitsVal ds < length params then params ! digitsVal ds
                   else ''{path.'' @ ds @ ''}'')
                @ replacePathParams params b)"
proof (intro conjI impI)
  assume "tokenFree a"
  then have "findMatch a = None" by (rule findMatch_tokenFree)
  then show "replacePathParams params a = a"
    unfolding replacePathParams_def by (subst regexp_ReplaceAllStringFunc.simps) simp
next
  assume h: "tokenFree a \<and> ds \<noteq> [] \<and> list_all isDigit ds"
  then show "regexp_FindStringSubmatch (''{path.'' @ ds @ ''}'') = [''{path.'' @ ds @ ''}'', ds]"
    using FindStringSubmatch_token by blast
next
  assume h: "tokenFree a \<and> ds \<noteq> [] \<and> list_all isDigit ds"
  then have fm: "findMatch (a @ ''{path.'' @ ds @ ''}'' @ b) = Some (a, ds, b)"
    using findMatch_first by blast
  have "replacePathParams params (a @ ''{path.'' @ ds @ ''}'' @ b) =
          a @ replaceFn params (''{path.'' @ ds @ ''}'') @ replacePathParams params b"
    unfolding replacePathParams_def
    by (subst regexp_ReplaceAllStringFunc.simps) (simp only: fm option.case prod.case)
  then show "replacePathParams params (a @ ''{path.'' @ ds @ ''}'' @ b) =
              a @ (if digitsVal ds < length params then params ! digitsVal ds
                   else ''{path.'' @ ds @ ''}'')
                @ replacePathParams params b"
    using replaceFn_token[OF _ _ len, of ds] h by simp
qed

text \<open>
  A braced text with an index in range and one out of range, for the parameters
  \<open>["42"]\<close>; and a two-digit index into twelve parameters.
\<close>

theorem replacePathParams_tokens_witness:
  "replacePathParams [''42''] ''{id:{path.0},x:{path.5}}'' = ''{id:42,x:{path.5}}'' \<and>
   replacePathParams [''a'', ''b'', ''c'', ''d'', ''e'', ''f'', ''g'', ''h'', ''i'', ''j'', ''k'', ''l'']
     ''/items/{path.10}'' = ''/items/k''"
proof -
  let ?ps = "[''a'', ''b'', ''c'', ''d'', ''e'', ''f'', ''g'', ''h'', ''i'', ''j'', ''k'', ''l'']"
  have len: "length [''42''] < 2 ^ 63" by simp
  have len12: "length ?ps < 2 ^ 63" by simp
  have f0: "tokenFree []" unfolding tokenFree_iff_findMatch by code_simp
  have f1: "tokenFree ''{id:''" unfolding tokenFree_iff_findMatch by code_simp
  have f2: "tokenFree '',x:''" unfolding tokenFree_iff_findMatch by code_simp
  have f3: "tokenFree ''}''" unfolding tokenFree_iff_findMatch by code_simp
  have f4: "tokenFree ''/items/''" unfolding tokenFree_iff_findMatch by code_simp
  have d0: "''0'' \<noteq> [] \<and> list_all isDigit ''0''" by (simp add: isDigit_def)
  have d5: "''5'' \<noteq> [] \<and> list_all isDigit ''5''" by (simp add: isDigit_def)
  have d10: "''10'' \<noteq> [] \<and> list_all isDigit ''10''" by (simp add: isDigit_def)
  have v0: "digitsVal ''0'' = 0" by (simp add: digitsVal_def)
  have v5: "digitsVal ''5'' = 5" by (simp add: digitsVal_def)
  have v10: "digitsVal ''10'' = 10" by (simp add: digitsVal_def)
  have s3: "replacePathParams [''42''] ''}'' = ''}''"
    using replacePathParams_tokens[OF len, of "''}''"] f3 by blast
  have s2: "replacePathParams [''42''] ('',x:'' @ ''{path.'' @ ''5'' @ ''}'' @ ''}'') =
              '',x:'' @ ''{path.'' @ ''5'' @ ''}'' @ ''}''"
    using replacePathParams_tokens[OF len, of "'',x:''" "''5''" "''}''"] f2 d5 v5 s3 by simp
  have s1: "replacePathParams [''42''] (''{id:'' @ ''{path.'' @ ''0'' @ ''}'' @ '',x:{path.5}}'') =
              ''{id:'' @ ''42'' @ replacePathParams [''42''] '',x:{path.5}}''"
    using replacePathParams_tokens[OF len, of "''{id:''" "''0''" "'',x:{path.5}}''"] f1 d0 v0 by simp
  have t0: "replacePathParams ?ps [] = []"
    using replacePathParams_tokens[OF len12, of "[]"] f0 by blast
  have t1: "replacePathParams ?ps (''/items/'' @ ''{path.'' @ ''10'' @ ''}'' @ []) =
              ''/items/'' @ ''k'' @ replacePathParams ?ps []"
    using replacePathParams_tokens[OF len12, of "''/items/''" "''10''" "[]"] f4 d10 v10 by simp
  show ?thesis using s1 s2 t0 t1 by simp
qed

subsection \<open>The handler\<close>

lemma mockHandler_descriptor:
  assumes "URLPath r \<noteq> ''/''" "HTTPMethod r \<noteq> ''OPTIONS''"
    and "findBestMockFile (configDir e) (strings_TrimPrefix (URLPath r) ''/'') (mockTree e) = (filePath, params, err)"
    and "filePath \<noteq> []"
    and "osOpen e filePath = Some (data, readErr)"
    and "jsonUnmarshal e data = Some mock"
  shows "response (mockHandler e r g) = corsHeaders @ serveMock r params mock"
  using assms by (simp add: mockHandler_def)

lemma observe_append [simp]:
  "statusCalls (xs @ ys) = statusCalls xs @ statusCalls ys"
  "bodyWrites (xs @ ys) = bodyWrites xs @ bodyWrites ys"
  "encodedBodies (xs @ ys) = encodedBodies xs @ encodedBodies ys"
  "sleeps (xs @ ys) = sleeps xs @ sleeps ys"
  "headerSets (xs @ ys) = headerSets xs @ headerSets ys"
  by (simp_all add: statusCalls_def bodyWrites_def encodedBodies_def sleeps_def headerSets_def)

lemma observe_Nil [simp]:
  "statusCalls [] = []" "bodyWrites [] = []" "encodedBodies [] = []" "sleeps [] = []" "headerSets [] = []"
  by (simp_all add: statusCalls_def bodyWrites_def encodedBodies_def sleeps_def headerSets_def)

lemma observe_Cons [simp]:
  "statusCalls (ev # tr) = (case ev of WriteHeader c \<Rightarrow> [c] | _ \<Rightarrow> []) @ statusCalls tr"
  "bodyWrites (ev # tr) = (case ev of WriteBytes b \<Rightarrow> [b] | _ \<Rightarrow> []) @ bodyWrites tr"
  "encodedBodies (ev # tr) = (case ev of EncodeJSON b \<Rightarrow> [b] | _ \<Rightarrow> []) @ encodedBodies tr"
  "sleeps (ev # tr) = (case ev of Sleep d \<Rightarrow> [d] | _ \<Rightarrow> []) @ sleeps tr"
  "headerSets (ev # tr) = (case ev of HeaderSet k v \<Rightarrow> [(k, v)] | _ \<Rightarrow> []) @ headerSets tr"
  by (simp_all add: statusCalls_def bodyWrites_def encodedBodies_def sleeps_def headerSets_def)

lemma observe_headers [simp]:
  "statusCalls (map (\<lambda>(k, v). HeaderSet k (f v)) hs) = []"
  "bodyWrites (map (\<lambda>(k, v). HeaderSet k (f v)) hs) = []"
  "encodedBodies (map (\<lambda>(k, v). HeaderSet k (f v)) hs) = []"
  "sleeps (map (\<lambda>(k, v). HeaderSet k (f v)) hs) = []"
  "headerSets (map (\<lambda>(k, v). HeaderSet k (f v)) hs) = map (\<lambda>(k, v). (k, f v)) hs"
  by (induction hs) auto

lemma observe_cors [simp]:
  "statusCalls corsHeaders = []" "bodyWrites corsHeaders = []" "encodedBodies corsHeaders = []"
  "sleeps corsHeaders = []"
  by (simp_all add: corsHeaders_def)

text \<open>
  A request for \<open>/users\<close> against a mock directory that holds \<open>users.json\<close>.
\<close>

lemma walk_users: "findBestMockFile ''mock'' (strings_TrimPrefix ''/users'' ''/'')
           (Some (DirNode [(''users.json'', FileNode)])) = (''mock/users.json'', [], None)"
  by code_simp



text \<open>
  Claim C6.  When the matched file parses as a descriptor whose method list is not
  empty and does not hold the request method, the response is the CORS headers followed
  by the JSON error response with status 405, whose body holds the error and the
  allowed methods joined with a comma and a space; nothing is slept and no body bytes
  of the descriptor are written.  With an empty method list no request is answered
  with the error body: the status is the descriptor's own.
\<close>

theorem mockHandler_method_not_allowed:
  assumes "URLPath r \<noteq> ''/''" "HTTPMethod r \<noteq> ''OPTIONS''"
    and "findBestMockFile (configDir e) (strings_TrimPrefix (URLPath r) ''/'') (mockTree e) = (filePath, params, err)"
    and "filePath \<noteq> []"
    and "osOpen e filePath = Some (data, readErr)"
    and "jsonUnmarshal e data = Some mock"
  shows "(Method mock \<noteq> [] \<and> HTTPMethod r \<notin> set (Method mock) \<longrightarrow>
            response (mockHandler e r g) =
              corsHeaders @
              [HeaderSet ''Content-Type'' ''application/json; charset=utf-8'',
               WriteHeader 405,
               EncodeJSON [(''error'', ''Method Not Allowed''),
                           (''allow'', strings_Join (Method mock) '', '')]] \<and>
            sleeps (response (mockHandler e r g)) = [] \<and>
            bodyWrites (response (mockHandler e r g)) = []) \<and>
         (Method mock = [] \<longrightarrow>
            encodedBodies (response (mockHandler e r g)) = [] \<and>
            statusCalls (response (mockHandler e r g)) =
              [if Status mock = 0 \<or> Status mock = 200
               then (if Body mock = [] \<or> Body mock = ''null'' then 204 else 200)
               else Status mock])"
  unfolding mockHandler_descriptor[OF assms(1-6)]
  by (auto simp: serveMock_def respondJSON_def Let_def)

text \<open>The descriptor \<open>method: ["POST"]\<close> asked with GET.\<close>

theorem mockHandler_method_not_allowed_witness:
  "response (mockHandler
      \<lparr>configDir = ''mock'', mockTree = Some (DirNode [(''users.json'', FileNode)]),
       osOpen = (\<lambda>p. Some (''{}'', False)),
       jsonUnmarshal = (\<lambda>d. Some \<lparr>Method = [''POST''], Status = 0, Delay = 0, Headers = [], Body = []\<rparr>)\<rparr>
      \<lparr>URLPath = ''/users'', HTTPMethod = ''GET''\<rparr> []) =
     corsHeaders @
     [HeaderSet ''Content-Type'' ''application/json; charset=utf-8'',
      WriteHeader 405,
      EncodeJSON [(''error'', ''Method Not Allowed''), (''allow'', ''POST'')]]"
proof -
  let ?mock = "\<lparr>Method = [''POST''], Status = 0, Delay = 0, Headers = [], Body = []\<rparr>"
  let ?e = "\<lparr>configDir = ''mock'', mockTree = Some (DirNode [(''users.json'', FileNode)]),
       osOpen = (\<lambda>p. Some (''{}'', False)), jsonUnmarshal = (\<lambda>d. Some ?mock)\<rparr>"
  let ?r = "\<lparr>URLPath = ''/users'', HTTPMethod = ''GET''\<rparr>"
  have h1: "URLPath ?r \<noteq> ''/''" by simp
  have h2: "HTTPMethod ?r \<noteq> ''OPTIONS''" by simp
  have h3: "findBestMockFile (configDir ?e) (strings_TrimPrefix (URLPath ?r) ''/'') (mockTree ?e) =
              (''mock/users.json'', [], None)"
    using walk_users by simp
  have h4: "''mock/users.json'' \<noteq> []" by simp
  have h5: "osOpen ?e ''mock/users.json'' = Some (''{}'', False)" by simp
  have h6: "jsonUnmarshal ?e ''{}'' = Some ?mock" by simp
  from mockHandler_method_not_allowed[OF h1 h2 h3 h4 h5 h6, of "[]"]
  show ?thesis by simp
qed

text \<open>
  Claim C10.  When the matched file parses as a descriptor whose delay is zero or
  negative, the handler never calls \<open>time.Sleep\<close>; and when the method is allowed it
  goes on, right after the CORS headers, to set the descriptor's headers and to emit a
  status, without an error response.
\<close>

theorem mockHandler_no_delay:
  assumes "URLPath r \<noteq> ''/''" "HTTPMethod r \<noteq> ''OPTIONS''"
    and "findBestMockFile (configDir e) (strings_TrimPrefix (URLPath r) ''/'') (mockTree e) = (filePath, params, err)"
    and "filePath \<noteq> []"
    and "osOpen e filePath = Some (data, readErr)"
    and "jsonUnmarshal e data = Some mock"
    and "Delay mock \<le> 0"
  shows "sleeps (response (mockHandler e r g)) = [] \<and>
         (Method mock = [] \<or> HTTPMethod r \<in> set (Method mock) \<longrightarrow>
            encodedBodies (response (mockHandler e r g)) = [] \<and>
            (\<exists>emitted. response (mockHandler e r g) =
               corsHeaders @
               map (\<lambda>(k, v). HeaderSet k (replacePathParams params v)) (Headers mock) @
               emitted \<and> statusCalls emitted \<noteq> [] \<and> sleeps emitted = []))"
  unfolding mockHandler_descriptor[OF assms(1-6)]
  using assms(7) by (auto simp: serveMock_def respondJSON_def Let_def)

text \<open>A descriptor with the delay \<open>-5\<close>.\<close>

theorem mockHandler_no_delay_witness:
  "sleeps (response (mockHandler
      \<lparr>configDir = ''mock'', mockTree = Some (DirNode [(''users.json'', FileNode)]),
       osOpen = (\<lambda>p. Some (''{}'', False)),
       jsonUnmarshal = (\<lambda>d. Some \<lparr>Method = [], Status = 0, Delay = - 5, Headers = [], Body = ''[1]''\<rparr>)\<rparr>
      \<lparr>URLPath = ''/users'', HTTPMethod = ''GET''\<rparr> [])) = []"
proof -
  let ?mock = "\<lparr>Method = [], Status = 0, Delay = - 5, Headers = [], Body = ''[1]''\<rparr>"
  let ?e = "\<lparr>configDir = ''mock'', mockTree = Some (DirNode [(''users.json'', FileNode)]),
       osOpen = (\<lambda>p. Some (''{}'', False)), jsonUnmarshal = (\<lambda>d. Some ?mock)\<rparr>"
  let ?r = "\<lparr>URLPath = ''/users'', HTTPMethod = ''GET''\<rparr>"
  have h1: "URLPath ?r \<noteq> ''/''" by simp
  have h2: "HTTPMethod ?r \<noteq> ''OPTIONS''" by simp
  have h3: "findBestMockFile (configDir ?e) (strings_TrimPrefix (URLPath ?r) ''/'') (mockTree ?e) =
              (''mock/users.json'', [], None)"
    using walk_users by simp
  have h4: "''mock/users.json'' \<noteq> []" by simp
  have h5: "osOpen ?e ''mock/users.json'' = Some (''{}'', False)" by simp
  have h6: "jsonUnmarshal ?e ''{}'' = Some ?mock" by simp
  have h7: "Delay ?mock \<le> 0" by simp
  from mockHandler_no_delay[OF h1 h2 h3 h4 h5 h6 h7, of "[]"]
  show ?thesis by simp
qed

text \<open>
  Claim C3.  When \<open>json.Unmarshal\<close> returns an error, the file's bytes are written
  unchanged with status 200 and content type \<open>application/json\<close>.  But for a file
  that \<open>json.Unmarshal\<close> accepts and that sets no field of the descriptor (as it does
  for every JSON object without the descriptor's keys: unknown keys are ignored), the
  handler answers 204 and writes no body, where the claim has the file returned as it is
  with status 200.
\<close>

theorem mockHandler_plain_json:
  assumes "URLPath r \<noteq> ''/''" "HTTPMethod r \<noteq> ''OPTIONS''"
    and "findBestMockFile (configDir e) (strings_TrimPrefix (URLPath r) ''/'') (mockTree e) = (filePath, params, err)"
    and "filePath \<noteq> []"
    and "osOpen e filePath = Some (data, readErr)"
  shows "(jsonUnmarshal e data = None \<longrightarrow>
            response (mockHandler e r g) =
              corsHeaders @
              [HeaderSet ''Content-Type'' ''application/json'', WriteHeader 200, WriteBytes data]) \<and>
         (jsonUnmarshal e data = Some \<lparr>Method = [], Status = 0, Delay = 0, Headers = [], Body = []\<rparr> \<longrightarrow>
            response (mockHandler e r g) = corsHeaders @ [WriteHeader 204])"
  using assms by (auto simp: mockHandler_def serveMock_def)

text \<open>
  The file \<open>{"id": 1, "name": "Taro"}\<close>, which \<open>json.Unmarshal\<close> accepts leaving the
  descriptor at its zero value.
\<close>

theorem mockHandler_plain_json_witness:
  \<open>response (mockHandler
      \<lparr>configDir = ''mock'', mockTree = Some (DirNode [(''users.json'', FileNode)]),
       osOpen = (\<lambda>p. Some (''{"id": 1, "name": "Taro"}'', False)),
       jsonUnmarshal = (\<lambda>d. if d = ''{"id": 1, "name": "Taro"}''
                              then Some \<lparr>Method = [], Status = 0, Delay = 0, Headers = [], Body = []\<rparr>
                              else None)\<rparr>
      \<lparr>URLPath = ''/users'', HTTPMethod = ''GET''\<rparr> []) = corsHeaders @ [WriteHeader 204]\<close>
proof -
  let ?mock = \<open>\<lparr>Method = [], Status = 0, Delay = 0, Headers = [], Body = []\<rparr>\<close>
  let ?data = \<open>''{"id": 1, "name": "Taro"}''\<close>
  let ?e = \<open>\<lparr>configDir = ''mock'', mockTree = Some (DirNode [(''users.json'', FileNode)]),
       osOpen = (\<lambda>p. Some (?data, False)),
       jsonUnmarshal = (\<lambda>d. if d = ?data then Some ?mock else None)\<rparr>\<close>
  let ?r = \<open>\<lparr>URLPath = ''/users'', HTTPMethod = ''GET''\<rparr>\<close>
  have h1: \<open>URLPath ?r \<noteq> ''/''\<close> by simp
  have h2: \<open>HTTPMethod ?r \<noteq> ''OPTIONS''\<close> by simp
  have h3: \<open>findBestMockFile (configDir ?e) (strings_TrimPrefix (URLPath ?r) ''/'') (mockTree ?e) =
              (''mock/users.json'', [], None)\<close>
    using walk_users by simp
  have h4: \<open>''mock/users.json'' \<noteq> []\<close> by simp
  have h5: \<open>osOpen ?e ''mock/users.json'' = Some (?data, False)\<close> by simp
  have h6: \<open>jsonUnmarshal ?e ?data = Some ?mock\<close> by simp
  from mockHandler_plain_json[OF h1 h2 h3 h4 h5, of "[]"] h6
  show ?thesis by simp
qed

text \<open>
  Claim C9.  When \<open>os.Open\<close> fails the response is the JSON error response with
  status 500.  But when the file opens and \<open>io.ReadAll\<close> fails, its error is
  discarded (line 163): the bytes read so far go to \<open>json.Unmarshal\<close>, and when they
  do not parse they are written with status 200, where the claim has status 500 and
  no mock content.
\<close>

theorem mockHandler_file_failures:
  assumes "URLPath r \<noteq> ''/''" "HTTPMethod r \<noteq> ''OPTIONS''"
    and "findBestMockFile (configDir e) (strings_TrimPrefix (URLPath r) ''/'') (mockTree e) = (filePath, params, err)"
    and "filePath \<noteq> []"
  shows "(osOpen e filePath = None \<longrightarrow>
            response (mockHandler e r g) =
              corsHeaders @ respondJSON 500 [(''error'', ''Server Error'')]) \<and>
         (osOpen e filePath = Some (data, True) \<and> jsonUnmarshal e data = None \<longrightarrow>
            response (mockHandler e r g) =
              corsHeaders @
              [HeaderSet ''Content-Type'' ''application/json'', WriteHeader 200, WriteBytes data])"
  using assms by (auto simp: mockHandler_def)

text \<open>A file that opens and cannot be read: no bytes, a read error.\<close>

theorem mockHandler_file_failures_witness:
  "response (mockHandler
      \<lparr>configDir = ''mock'', mockTree = Some (DirNode [(''users.json'', FileNode)]),
       osOpen = (\<lambda>p. Some ([], True)),
       jsonUnmarshal = (\<lambda>d. None)\<rparr>
      \<lparr>URLPath = ''/users'', HTTPMethod = ''GET''\<rparr> []) =
     corsHeaders @ [HeaderSet ''Content-Type'' ''application/json'', WriteHeader 200, WriteBytes []]"
proof -
  let ?e = "\<lparr>configDir = ''mock'', mockTree = Some (DirNode [(''users.json'', FileNode)]),
       osOpen = (\<lambda>p. Some ([], True)), jsonUnmarshal = (\<lambda>d. None)\<rparr>"
  let ?r = "\<lparr>URLPath = ''/users'', HTTPMethod = ''GET''\<rparr>"
  have h1: "URLPath ?r \<noteq> ''/''" by simp
  have h2: "HTTPMethod ?r \<noteq> ''OPTIONS''" by simp
  have h3: "findBestMockFile (configDir ?e) (strings_TrimPrefix (URLPath ?r) ''/'') (mockTree ?e) =
              (''mock/users.json'', [], None)"
    using walk_users by simp
  have h4: "''mock/users.json'' \<noteq> []" by simp
  from mockHandler_file_failures[OF h1 h2 h3 h4, where data = "[]" and g = "[]"]
  show ?thesis by simp
qed

end
